theory Spec2Isabelle
  imports Main "HOL-Library.Word"
begin

section \<open>JavaScript strings and numbers\<close>

text \<open>
  A JavaScript string is a sequence of 16-bit code units. String literals of the source
  are written \<open>js ''...''\<close>. The numbers the library handles (\<open>page\<close>, \<open>limit\<close>, filter
  values) are modelled as mathematical integers; JavaScript agrees with this on the safe
  integers, and fractions, \<open>NaN\<close> and infinities are outside the model.
\<close>

type_synonym jsstring = "16 word list"

definition js :: "string \<Rightarrow> jsstring" where
  "js s = map (\<lambda>c. of_nat (of_char c)) s"

text \<open>\<open>Array.prototype.join\<close> on an array of strings.\<close>

fun join :: "jsstring \<Rightarrow> jsstring list \<Rightarrow> jsstring" where
  "join sep [] = []"
| "join sep [x] = x"
| "join sep (x # y # ys) = x @ sep @ join sep (y # ys)"

text \<open>\<open>String(n)\<close> for an integer \<open>n\<close>: its decimal digits, with a minus sign below zero.\<close>

definition digit_char :: "nat \<Rightarrow> 16 word" where
  "digit_char d = of_nat (48 + d)"

fun digits :: "nat \<Rightarrow> jsstring" where
  "digits n = (if n < 10 then [digit_char n] else digits (n div 10) @ [digit_char (n mod 10)])"

declare digits.simps [simp del]

definition String_int :: "int \<Rightarrow> jsstring" where
  "String_int n = (if n < 0 then js ''-'' @ digits (nat (- n)) else digits (nat n))"

text \<open>
  \<open>Number.isSafeInteger\<close>. On the safe integers \<open>String\<close> prints the full decimal
  expansion and \<open>parseInt\<close> reads a digit run exactly. Beyond them JavaScript numbers are
  rounded, and from \<open>1e21\<close> on \<open>String\<close> prints an exponent; a statement that depends on
  the printed or parsed value of a number assumes \<open>safe_integer\<close> of it.
\<close>

definition safe_integer :: "int \<Rightarrow> bool" where
  "safe_integer n = (- 9007199254740991 \<le> n \<and> n \<le> 9007199254740991)"

section \<open>Filter tokens (\<open>filter.ts\<close>, \<open>types.ts\<close>)\<close>

datatype FilterOperator = EQ | GT | GTE | IN | NULL | LT | LTE | BTW | ILIKE | SW | CONTAINS

datatype FilterSuffix = NOT

datatype FilterComparator = AND | OR

fun operator_str :: "FilterOperator \<Rightarrow> jsstring" where
  "operator_str EQ = js ''$eq''"
| "operator_str GT = js ''$gt''"
| "operator_str GTE = js ''$gte''"
| "operator_str IN = js ''$in''"
| "operator_str NULL = js ''$null''"
| "operator_str LT = js ''$lt''"
| "operator_str LTE = js ''$lte''"
| "operator_str BTW = js ''$btw''"
| "operator_str ILIKE = js ''$ilike''"
| "operator_str SW = js ''$sw''"
| "operator_str CONTAINS = js ''$contains''"

fun suffix_str :: "FilterSuffix \<Rightarrow> jsstring" where
  "suffix_str NOT = js ''$not''"

fun comparator_str :: "FilterComparator \<Rightarrow> jsstring" where
  "comparator_str AND = js ''$and''"
| "comparator_str OR = js ''$or''"

text \<open>
  The \<open>value\<close> of a token: a string, a number, or an array of such. \<open>String\<close> is the
  JavaScript conversion; on an array it joins the converted elements with a comma.
\<close>

datatype jsval = VStr jsstring | VNum int | VArr "jsval list"

fun String :: "jsval \<Rightarrow> jsstring" where
  "String (VStr s) = s"
| "String (VNum n) = String_int n"
| "String (VArr vs) = join (js '','') (map String vs)"

record FilterTokenOptions =
  comparator :: "FilterComparator option"
  suffix :: "FilterSuffix option"
  operator :: FilterOperator
  "value" :: "jsval option"

definition SEP :: jsstring where
  "SEP = js '':''"

text \<open>
  \<open>buildFilterToken\<close> as written in \<open>filter.ts\<close>: the parts are pushed in turn and joined
  with \<open>SEP\<close>. The function has no \<open>throw\<close>; an absent value takes the last \<open>else\<close>
  branch and returns the parts collected so far.
\<close>

definition buildFilterToken :: "FilterTokenOptions \<Rightarrow> jsstring" where
  "buildFilterToken options =
    (let parts1 = (case comparator options of
                     Some c \<Rightarrow> if c \<noteq> AND then [comparator_str c] else []
                   | None \<Rightarrow> []);
         parts2 = (case suffix options of
                     Some s \<Rightarrow> parts1 @ [suffix_str s]
                   | None \<Rightarrow> parts1);
         parts3 = parts2 @ [operator_str (operator options)]
     in if operator options = NULL then join SEP parts3
        else (case value options of
                Some (VArr vs) \<Rightarrow> join SEP (parts3 @ [join (js '','') (map String vs)])
              | Some v \<Rightarrow> join SEP (parts3 @ [String v])
              | None \<Rightarrow> join SEP parts3))"

definition eq :: "jsval \<Rightarrow> jsstring" where
  "eq v = buildFilterToken \<lparr>comparator = None, suffix = None, operator = EQ, value = Some v\<rparr>"

definition gte :: "int \<Rightarrow> jsstring" where
  "gte n = buildFilterToken
     \<lparr>comparator = None, suffix = None, operator = GTE, value = Some (VNum n)\<rparr>"

definition nullOp :: jsstring where
  "nullOp = buildFilterToken \<lparr>comparator = None, suffix = None, operator = NULL, value = None\<rparr>"

section \<open>Percent-encoding (\<open>encodeURIComponent\<close>, \<open>decodeURIComponent\<close>)\<close>

text \<open>
  The two built-ins follow the \<open>Encode\<close> and \<open>Decode\<close> operations of ECMA-262. Both
  can throw a \<open>URIError\<close>: the encoder on an unpaired surrogate, the decoder on a
  truncated or non-hexadecimal escape and on escaped octets that are not the UTF-8
  encoding of a code point. \<open>TypeError\<close> is what calling a value that is not a function
  raises.
\<close>

datatype error = URIError | TypeError

definition is_lead :: "16 word \<Rightarrow> bool" where
  "is_lead c = (0xD800 \<le> c \<and> c < 0xDC00)"

definition is_trail :: "16 word \<Rightarrow> bool" where
  "is_trail c = (0xDC00 \<le> c \<and> c < 0xE000)"

definition is_digit :: "16 word \<Rightarrow> bool" where
  "is_digit c = (0x30 \<le> c \<and> c \<le> 0x39)"

definition is_upper :: "16 word \<Rightarrow> bool" where
  "is_upper c = (0x41 \<le> c \<and> c \<le> 0x5A)"

definition is_lower :: "16 word \<Rightarrow> bool" where
  "is_lower c = (0x61 \<le> c \<and> c \<le> 0x7A)"

text \<open>The characters \<open>encodeURIComponent\<close> leaves alone: letters, digits and \<open>_-.!~*'()\<close>.\<close>

definition unescaped :: "16 word \<Rightarrow> bool" where
  "unescaped c = (is_digit c \<or> is_upper c \<or> is_lower c \<or>
     c \<in> {0x5F, 0x2D, 0x2E, 0x21, 0x7E, 0x2A, 0x27, 0x28, 0x29})"

definition pair_cp :: "16 word \<Rightarrow> 16 word \<Rightarrow> nat" where
  "pair_cp c d = 0x10000 + (unat c - 0xD800) * 0x400 + (unat d - 0xDC00)"

definition utf8 :: "nat \<Rightarrow> nat list" where
  "utf8 cp =
    (if cp < 0x80 then [cp]
     else if cp < 0x800 then [0xC0 + cp div 64, 0x80 + cp mod 64]
     else if cp < 0x10000 then [0xE0 + cp div 4096, 0x80 + (cp div 64) mod 64, 0x80 + cp mod 64]
     else [0xF0 + cp div 262144, 0x80 + (cp div 4096) mod 64, 0x80 + (cp div 64) mod 64,
           0x80 + cp mod 64])"

definition hex_digit :: "nat \<Rightarrow> 16 word" where
  "hex_digit d = (if d < 10 then of_nat (48 + d) else of_nat (55 + d))"

definition pct :: "nat \<Rightarrow> jsstring" where
  "pct b = [0x25, hex_digit (b div 16), hex_digit (b mod 16)]"

definition pct_octets :: "nat list \<Rightarrow> jsstring" where
  "pct_octets bs = concat (map pct bs)"

fun encodeURIComponent :: "jsstring \<Rightarrow> error + jsstring" where
  "encodeURIComponent [] = Inr []"
| "encodeURIComponent (c # cs) =
    (if unescaped c then
       (case encodeURIComponent cs of Inl e \<Rightarrow> Inl e | Inr r \<Rightarrow> Inr (c # r))
     else if is_trail c then Inl URIError
     else if is_lead c then
       (case cs of
          [] \<Rightarrow> Inl URIError
        | d # ds \<Rightarrow>
            if is_trail d then
              (case encodeURIComponent ds of
                 Inl e \<Rightarrow> Inl e
               | Inr r \<Rightarrow> Inr (pct_octets (utf8 (pair_cp c d)) @ r))
            else Inl URIError)
     else
       (case encodeURIComponent cs of
          Inl e \<Rightarrow> Inl e
        | Inr r \<Rightarrow> Inr (pct_octets (utf8 (unat c)) @ r)))"

definition hex_val :: "16 word \<Rightarrow> nat option" where
  "hex_val c =
    (if is_digit c then Some (unat c - 48)
     else if 0x41 \<le> c \<and> c \<le> 0x46 then Some (unat c - 55)
     else if 0x61 \<le> c \<and> c \<le> 0x66 then Some (unat c - 87)
     else None)"

text \<open>
  Decoding in two passes over the same left-to-right scan: first every \<open>%XX\<close> becomes an
  octet (a \<open>%\<close> without two hexadecimal digits after it is an error), then octets are
  read as UTF-8. An octet below \<open>0x80\<close> is a character; a lead octet announcing \<open>n\<close>
  octets must be followed by \<open>n - 1\<close> escaped continuation octets, and the sequence must
  be the shortest encoding of a code point that is not a surrogate and not above
  \<open>0x10FFFF\<close>.
\<close>

datatype uri_item = Lit "16 word" | Oct nat

fun unescape_items :: "jsstring \<Rightarrow> uri_item list option" where
  "unescape_items [] = Some []"
| "unescape_items (c # cs) =
    (if c = 0x25 then
       (case cs of
          h1 # h2 # rest \<Rightarrow>
            (case hex_val h1 of
               None \<Rightarrow> None
             | Some a \<Rightarrow>
                 (case hex_val h2 of
                    None \<Rightarrow> None
                  | Some b \<Rightarrow> map_option ((#) (Oct (16 * a + b))) (unescape_items rest)))
        | _ \<Rightarrow> None)
     else map_option ((#) (Lit c)) (unescape_items cs))"

definition is_cont :: "nat \<Rightarrow> bool" where
  "is_cont b = (0x80 \<le> b \<and> b < 0xC0)"

definition utf8_cp2 :: "nat \<Rightarrow> nat \<Rightarrow> nat option" where
  "utf8_cp2 b1 b2 =
    (let cp = (b1 - 0xC0) * 64 + (b2 - 0x80)
     in if is_cont b2 \<and> 0x80 \<le> cp then Some cp else None)"

definition utf8_cp3 :: "nat \<Rightarrow> nat \<Rightarrow> nat \<Rightarrow> nat option" where
  "utf8_cp3 b1 b2 b3 =
    (let cp = (b1 - 0xE0) * 4096 + (b2 - 0x80) * 64 + (b3 - 0x80)
     in if is_cont b2 \<and> is_cont b3 \<and> 0x800 \<le> cp \<and> \<not> (0xD800 \<le> cp \<and> cp < 0xE000)
        then Some cp else None)"

definition utf8_cp4 :: "nat \<Rightarrow> nat \<Rightarrow> nat \<Rightarrow> nat \<Rightarrow> nat option" where
  "utf8_cp4 b1 b2 b3 b4 =
    (let cp = (b1 - 0xF0) * 262144 + (b2 - 0x80) * 4096 + (b3 - 0x80) * 64 + (b4 - 0x80)
     in if is_cont b2 \<and> is_cont b3 \<and> is_cont b4 \<and> 0x10000 \<le> cp \<and> cp < 0x110000
        then Some cp else None)"

definition utf16 :: "nat \<Rightarrow> jsstring" where
  "utf16 cp =
    (if cp < 0x10000 then [of_nat cp]
     else [of_nat (0xD800 + (cp - 0x10000) div 0x400), of_nat (0xDC00 + (cp - 0x10000) mod 0x400)])"

fun decode_items :: "uri_item list \<Rightarrow> jsstring option" where
  "decode_items [] = Some []"
| "decode_items (Lit c # xs) = map_option ((#) c) (decode_items xs)"
| "decode_items (Oct b # xs) =
    (if b < 0x80 then map_option ((#) (of_nat b)) (decode_items xs)
     else if b < 0xC0 then None
     else if b < 0xE0 then
       (case xs of
          Oct b2 # r \<Rightarrow>
            (case utf8_cp2 b b2 of
               None \<Rightarrow> None
             | Some cp \<Rightarrow> map_option ((@) (utf16 cp)) (decode_items r))
        | _ \<Rightarrow> None)
     else if b < 0xF0 then
       (case xs of
          Oct b2 # Oct b3 # r \<Rightarrow>
            (case utf8_cp3 b b2 b3 of
               None \<Rightarrow> None
             | Some cp \<Rightarrow> map_option ((@) (utf16 cp)) (decode_items r))
        | _ \<Rightarrow> None)
     else if b < 0xF8 then
       (case xs of
          Oct b2 # Oct b3 # Oct b4 # r \<Rightarrow>
            (case utf8_cp4 b b2 b3 b4 of
               None \<Rightarrow> None
             | Some cp \<Rightarrow> map_option ((@) (utf16 cp)) (decode_items r))
        | _ \<Rightarrow> None)
     else None)"

definition decodeURIComponent :: "jsstring \<Rightarrow> error + jsstring" where
  "decodeURIComponent s =
    (case unescape_items s of
       None \<Rightarrow> Inl URIError
     | Some items \<Rightarrow>
         (case decode_items items of None \<Rightarrow> Inl URIError | Some r \<Rightarrow> Inr r))"

text \<open>A string is well formed when every surrogate in it is half of a pair.\<close>

fun well_formed :: "jsstring \<Rightarrow> bool" where
  "well_formed [] = True"
| "well_formed (c # cs) =
    (if is_trail c then False
     else if is_lead c then (case cs of [] \<Rightarrow> False | d # ds \<Rightarrow> is_trail d \<and> well_formed ds)
     else well_formed cs)"

section \<open>Objects used as string-keyed records\<close>

text \<open>
  A \<open>Record<string, V>\<close> is kept as the list of its own properties in creation order,
  with distinct keys. Assignment replaces the value of an existing key in place and
  appends a new key. \<open>Object.entries\<close> lists the keys that are array indices (canonical
  decimal strings below \<open>2^32 - 1\<close>) first, in ascending numeric order, and then the
  other keys in creation order.
\<close>

type_synonym 'v jsobject = "(jsstring \<times> 'v) list"

definition obj_get :: "'v jsobject \<Rightarrow> jsstring \<Rightarrow> 'v option" where
  "obj_get obj key = map_of obj key"

fun obj_set :: "jsstring \<Rightarrow> 'v \<Rightarrow> 'v jsobject \<Rightarrow> 'v jsobject" where
  "obj_set key v [] = [(key, v)]"
| "obj_set key v ((k, x) # rest) =
    (if k = key then (k, v) # rest else (k, x) # obj_set key v rest)"

definition dec_value :: "jsstring \<Rightarrow> nat" where
  "dec_value s = foldl (\<lambda>a c. 10 * a + (unat c - 48)) 0 s"

definition array_index :: "jsstring \<Rightarrow> nat option" where
  "array_index s =
    (if s \<noteq> [] \<and> list_all is_digit s \<and> (length s = 1 \<or> hd s \<noteq> 0x30)
        \<and> dec_value s < 4294967295
     then Some (dec_value s) else None)"

definition Object_entries :: "'v jsobject \<Rightarrow> (jsstring \<times> 'v) list" where
  "Object_entries obj =
     sort_key (\<lambda>(k, v). the (array_index k)) (filter (\<lambda>(k, v). array_index k \<noteq> None) obj)
     @ filter (\<lambda>(k, v). array_index k = None) obj"

text \<open>
  The property names every object inherits from \<open>Object.prototype\<close>. Reading one of
  them from an object that has no own property of that name yields the inherited member.
\<close>

definition Object_prototype_keys :: "jsstring list" where
  "Object_prototype_keys =
    [js ''constructor'', js ''__defineGetter__'', js ''__defineSetter__'',
     js ''hasOwnProperty'', js ''__lookupGetter__'', js ''__lookupSetter__'',
     js ''isPrototypeOf'', js ''propertyIsEnumerable'', js ''toString'', js ''valueOf'',
     js ''__proto__'', js ''toLocaleString'']"

section \<open>The builder (\<open>builder.ts\<close>)\<close>

text \<open>
  \<open>PaginateParamsRaw\<close> is \<open>Record<string, string | string[]>\<close>; the same union is the
  type of a stored filter entry and of the \<open>token\<close> argument of \<open>filter\<close>.
\<close>

datatype pvalue = Single jsstring | Multi "jsstring list"

type_synonym PaginateParamsRaw = "pvalue jsobject"

datatype SortDirection = ASC | DESC

fun direction_str :: "SortDirection \<Rightarrow> jsstring" where
  "direction_str ASC = js ''ASC''"
| "direction_str DESC = js ''DESC''"

text \<open>
  The private fields of \<open>PaginateQueryBuilder\<close>. A sort rule keeps its direction as a
  string, since \<open>fromQueryString\<close> stores whatever follows the last colon.
\<close>

record PaginateQueryBuilder =
  b_page :: "int option"
  b_limit :: "int option"
  b_sortBy :: "(jsstring \<times> jsstring) list"
  b_search :: "jsstring option"
  b_searchBy :: "jsstring list"
  b_select :: "jsstring list"
  b_filter :: "pvalue jsobject"
  b_cursor :: "jsstring option"
  b_withDeleted :: "bool option"

definition newBuilder :: PaginateQueryBuilder where
  "newBuilder = \<lparr>b_page = None, b_limit = None, b_sortBy = [], b_search = None,
     b_searchBy = [], b_select = [], b_filter = [], b_cursor = None, b_withDeleted = None\<rparr>"

definition page :: "int \<Rightarrow> PaginateQueryBuilder \<Rightarrow> PaginateQueryBuilder" where
  "page n b = b\<lparr>b_page := Some n\<rparr>"

definition limit :: "int \<Rightarrow> PaginateQueryBuilder \<Rightarrow> PaginateQueryBuilder" where
  "limit n b = b\<lparr>b_limit := Some n\<rparr>"

definition sortBy :: "jsstring \<Rightarrow> jsstring \<Rightarrow> PaginateQueryBuilder \<Rightarrow> PaginateQueryBuilder" where
  "sortBy column direction b = b\<lparr>b_sortBy := b_sortBy b @ [(column, direction)]\<rparr>"

definition search :: "jsstring \<Rightarrow> PaginateQueryBuilder \<Rightarrow> PaginateQueryBuilder" where
  "search term b = b\<lparr>b_search := Some term\<rparr>"

definition searchBy :: "jsstring list \<Rightarrow> PaginateQueryBuilder \<Rightarrow> PaginateQueryBuilder" where
  "searchBy columns b = b\<lparr>b_searchBy := columns\<rparr>"

definition select :: "jsstring list \<Rightarrow> PaginateQueryBuilder \<Rightarrow> PaginateQueryBuilder" where
  "select columns b = b\<lparr>b_select := columns\<rparr>"

text \<open>\<open>Array.isArray(x) ? x : [x]\<close> and the truthiness test \<open>existing ? ... : ...\<close>.\<close>

fun as_array :: "pvalue \<Rightarrow> jsstring list" where
  "as_array (Single s) = [s]"
| "as_array (Multi xs) = xs"

fun truthy :: "pvalue option \<Rightarrow> bool" where
  "truthy None = False"
| "truthy (Some (Single s)) = (s \<noteq> [])"
| "truthy (Some (Multi xs)) = True"

text \<open>
  \<open>filter(column, token)\<close>. The model covers column names that are not in
  \<open>Object_prototype_keys\<close>: for those twelve names \<open>this._filter[key]\<close> reads an inherited
  function, which has no counterpart among the values of this model.
\<close>

definition filter_by :: "jsstring \<Rightarrow> pvalue \<Rightarrow> PaginateQueryBuilder \<Rightarrow> PaginateQueryBuilder" where
  "filter_by column token b =
    (let key = column;
         existing = obj_get (b_filter b) key;
         next = as_array token
     in b\<lparr>b_filter :=
          obj_set key
            (if truthy existing then
               (case existing of
                  Some e \<Rightarrow> Multi (as_array e @ next)
                | None \<Rightarrow> Multi next)
             else if length next = 1 then Single (next ! 0)
             else Multi next)
            (b_filter b)\<rparr>)"

text \<open>
  What the code does on the twelve names. The read \<open>this._filter[key]\<close> yields the own
  property when there is one, the member inherited from \<open>Object.prototype\<close> when the key
  is one of its property names, and \<open>undefined\<close> otherwise. An inherited member is truthy
  and is not an array, so the array that \<open>filter\<close> builds starts with that member.
  \<open>filter_assigns\<close> is the value of the right-hand side of the assignment in \<open>filter\<close>,
  with the elements that are not strings kept apart from the tokens. (The assignment to
  the key \<open>__proto__\<close> goes to the inherited setter, which replaces the prototype of
  \<open>_filter\<close> and creates no property; states after such a call are outside the model.)
\<close>

datatype 'v property = Own 'v | Inherited jsstring | Absent

definition obj_read :: "'v jsobject \<Rightarrow> jsstring \<Rightarrow> 'v property" where
  "obj_read obj key =
     (case obj_get obj key of
        Some v \<Rightarrow> Own v
      | None \<Rightarrow> if key \<in> set Object_prototype_keys then Inherited key else Absent)"

datatype element = Token jsstring | Member jsstring

datatype assigned = AString jsstring | AnArray "element list"

definition filter_assigns :: "jsstring \<Rightarrow> pvalue \<Rightarrow> PaginateQueryBuilder \<Rightarrow> assigned" where
  "filter_assigns column token b =
    (let key = column;
         existing = obj_read (b_filter b) key;
         next = as_array token
     in case existing of
          Own (Multi xs) \<Rightarrow> AnArray (map Token xs @ map Token next)
        | Own (Single s) \<Rightarrow>
            if s \<noteq> [] then AnArray ([Token s] @ map Token next)
            else if length next = 1 then AString (next ! 0)
            else AnArray (map Token next)
        | Inherited m \<Rightarrow> AnArray ([Member m] @ map Token next)
        | Absent \<Rightarrow>
            if length next = 1 then AString (next ! 0)
            else AnArray (map Token next))"

fun stored :: "pvalue \<Rightarrow> assigned" where
  "stored (Single s) = AString s"
| "stored (Multi xs) = AnArray (map Token xs)"

definition cursor :: "jsstring \<Rightarrow> PaginateQueryBuilder \<Rightarrow> PaginateQueryBuilder" where
  "cursor c b = b\<lparr>b_cursor := Some c\<rparr>"

definition withDeleted :: "bool \<Rightarrow> PaginateQueryBuilder \<Rightarrow> PaginateQueryBuilder" where
  "withDeleted v b = b\<lparr>b_withDeleted := Some v\<rparr>"

text \<open>
  In the value model a copy is the value itself; \<open>clone\<close> is modelled with its
  allocations in the section on the store below.
\<close>

text \<open>The public mutators as data, to speak about sequences of calls.\<close>

datatype call =
    Page int
  | Limit int
  | SortBy jsstring SortDirection
  | Search jsstring
  | SearchBy "jsstring list"
  | Select "jsstring list"
  | Filter jsstring pvalue
  | Cursor jsstring
  | WithDeleted bool

fun apply_call :: "call \<Rightarrow> PaginateQueryBuilder \<Rightarrow> PaginateQueryBuilder" where
  "apply_call (Page n) b = page n b"
| "apply_call (Limit n) b = limit n b"
| "apply_call (SortBy column direction) b = sortBy column (direction_str direction) b"
| "apply_call (Search term) b = search term b"
| "apply_call (SearchBy columns) b = searchBy columns b"
| "apply_call (Select columns) b = select columns b"
| "apply_call (Filter column token) b = filter_by column token b"
| "apply_call (Cursor c) b = cursor c b"
| "apply_call (WithDeleted v) b = withDeleted v b"

definition run :: "call list \<Rightarrow> PaginateQueryBuilder \<Rightarrow> PaginateQueryBuilder" where
  "run calls b = fold apply_call calls b"

text \<open>
  The calls the value model follows faithfully: every call but a \<open>filter\<close> on a column
  named like a member of \<open>Object.prototype\<close>.
\<close>

fun modelled_call :: "call \<Rightarrow> bool" where
  "modelled_call (Filter column token) = (column \<notin> set Object_prototype_keys)"
| "modelled_call c = True"

text \<open>
  \<open>toParams\<close> of the current builder, the one with \<open>clone\<close> and \<open>toURLSearchParams\<close>:
  \<open>withDeleted\<close> is written only when the flag is \<open>true\<close>.
\<close>

definition filter_params :: "pvalue jsobject \<Rightarrow> PaginateParamsRaw \<Rightarrow> PaginateParamsRaw" where
  "filter_params flt raw =
     fold (\<lambda>(column, v) r. obj_set (js ''filter.'' @ column) v r) (Object_entries flt) raw"

definition common_params :: "PaginateQueryBuilder \<Rightarrow> PaginateParamsRaw" where
  "common_params b =
    (let raw0 = [];
         raw1 = (case b_page b of
                   Some n \<Rightarrow> obj_set (js ''page'') (Single (String_int n)) raw0
                 | None \<Rightarrow> raw0);
         raw2 = (case b_limit b of
                   Some n \<Rightarrow> obj_set (js ''limit'') (Single (String_int n)) raw1
                 | None \<Rightarrow> raw1);
         raw3 = (if length (b_sortBy b) \<noteq> 0
                 then obj_set (js ''sortBy'')
                        (Multi (map (\<lambda>(col, dir). col @ js '':'' @ dir) (b_sortBy b))) raw2
                 else raw2);
         raw4 = (case b_search b of
                   Some s \<Rightarrow> if s \<noteq> [] then obj_set (js ''search'') (Single s) raw3 else raw3
                 | None \<Rightarrow> raw3);
         raw5 = (if length (b_searchBy b) \<noteq> 0
                 then obj_set (js ''searchBy'') (Multi (b_searchBy b)) raw4 else raw4);
         raw6 = (if length (b_select b) \<noteq> 0
                 then obj_set (js ''select'') (Single (join (js '','') (b_select b))) raw5
                 else raw5);
         raw7 = (case b_cursor b of
                   Some c \<Rightarrow> obj_set (js ''cursor'') (Single c) raw6
                 | None \<Rightarrow> raw6)
     in raw7)"

definition toParams :: "PaginateQueryBuilder \<Rightarrow> PaginateParamsRaw" where
  "toParams b =
    (let raw7 = common_params b;
         raw8 = (if b_withDeleted b = Some True
                 then obj_set (js ''withDeleted'') (Single (js ''true'')) raw7 else raw7)
     in filter_params (b_filter b) raw8)"

text \<open>
  The earlier \<open>toParams\<close>, still present in \<open>src/lib/builder.ts\<close>: it writes
  \<open>String(this._withDeleted)\<close> whenever the flag was set at all.
\<close>

definition String_bool :: "bool \<Rightarrow> jsstring" where
  "String_bool v = (if v then js ''true'' else js ''false'')"

definition toParams_legacy :: "PaginateQueryBuilder \<Rightarrow> PaginateParamsRaw" where
  "toParams_legacy b =
    (let raw7 = common_params b;
         raw8 = (case b_withDeleted b of
                   Some v \<Rightarrow> obj_set (js ''withDeleted'') (Single (String_bool v)) raw7
                 | None \<Rightarrow> raw7)
     in filter_params (b_filter b) raw8)"

section \<open>Serialising a param map (\<open>query-string.ts\<close>)\<close>

definition mk_pair :: "jsstring \<Rightarrow> jsstring \<Rightarrow> error + jsstring" where
  "mk_pair key v =
    (case encodeURIComponent key of
       Inl e \<Rightarrow> Inl e
     | Inr k \<Rightarrow>
         (case encodeURIComponent v of
            Inl e \<Rightarrow> Inl e
          | Inr x \<Rightarrow> Inr (k @ js ''='' @ x)))"

text \<open>The inner loop over an array value and the outer loop over the entries.\<close>

fun push_values :: "jsstring \<Rightarrow> jsstring list \<Rightarrow> jsstring list \<Rightarrow> error + jsstring list" where
  "push_values key [] pairs = Inr pairs"
| "push_values key (v # vs) pairs =
    (if v \<noteq> [] then
       (case mk_pair key v of
          Inl e \<Rightarrow> Inl e
        | Inr p \<Rightarrow> push_values key vs (pairs @ [p]))
     else push_values key vs pairs)"

fun push_entries :: "(jsstring \<times> pvalue) list \<Rightarrow> jsstring list \<Rightarrow> error + jsstring list" where
  "push_entries [] pairs = Inr pairs"
| "push_entries ((key, Multi vs) # rest) pairs =
    (case push_values key vs pairs of
       Inl e \<Rightarrow> Inl e
     | Inr pairs' \<Rightarrow> push_entries rest pairs')"
| "push_entries ((key, Single s) # rest) pairs =
    (if s \<noteq> [] then
       (case mk_pair key s of
          Inl e \<Rightarrow> Inl e
        | Inr p \<Rightarrow> push_entries rest (pairs @ [p]))
     else push_entries rest pairs)"

definition toQueryString :: "PaginateParamsRaw \<Rightarrow> error + jsstring" where
  "toQueryString params =
    (case push_entries (Object_entries params) [] of
       Inl e \<Rightarrow> Inl e
     | Inr pairs \<Rightarrow>
         Inr (if length pairs \<noteq> 0 then js ''?'' @ join (js ''&'') pairs else []))"

definition builder_toQueryString :: "PaginateQueryBuilder \<Rightarrow> error + jsstring" where
  "builder_toQueryString b = toQueryString (toParams b)"

section \<open>\<open>toURLSearchParams\<close>\<close>

text \<open>
  A \<open>URLSearchParams\<close> is its ordered list of name-value pairs. \<open>append\<close> takes
  \<open>USVString\<close> arguments: an unpaired surrogate is replaced by \<open>U+FFFD\<close>.
\<close>

type_synonym URLSearchParams = "(jsstring \<times> jsstring) list"

fun to_USVString :: "jsstring \<Rightarrow> jsstring" where
  "to_USVString [] = []"
| "to_USVString (c # cs) =
    (if is_trail c then 0xFFFD # to_USVString cs
     else if is_lead c then
       (case cs of
          [] \<Rightarrow> [0xFFFD]
        | d # ds \<Rightarrow> if is_trail d then c # d # to_USVString ds else 0xFFFD # to_USVString cs)
     else c # to_USVString cs)"

definition usp_append :: "jsstring \<Rightarrow> jsstring \<Rightarrow> URLSearchParams \<Rightarrow> URLSearchParams" where
  "usp_append name v usp = usp @ [(to_USVString name, to_USVString v)]"

fun append_entries :: "(jsstring \<times> pvalue) list \<Rightarrow> URLSearchParams \<Rightarrow> URLSearchParams" where
  "append_entries [] usp = usp"
| "append_entries ((key, Multi vs) # rest) usp =
     append_entries rest (fold (\<lambda>v u. usp_append key v u) vs usp)"
| "append_entries ((key, Single s) # rest) usp = append_entries rest (usp_append key s usp)"

definition toURLSearchParams :: "PaginateQueryBuilder \<Rightarrow> URLSearchParams" where
  "toURLSearchParams b = append_entries (Object_entries (toParams b)) []"

section \<open>Parsing a query string (\<open>parse.ts\<close>)\<close>

text \<open>\<open>String.prototype.split\<close> with a one-character separator.\<close>

fun split :: "16 word \<Rightarrow> jsstring \<Rightarrow> jsstring list" where
  "split sep [] = [[]]"
| "split sep (c # cs) =
    (if c = sep then [] # split sep cs
     else (case split sep cs of
             [] \<Rightarrow> [[c]]
           | p # ps \<Rightarrow> (c # p) # ps))"

text \<open>\<open>indexOf\<close> and \<open>lastIndexOf\<close> of a character; \<open>None\<close> stands for \<open>-1\<close>.\<close>

definition indexOf :: "16 word \<Rightarrow> jsstring \<Rightarrow> nat option" where
  "indexOf c s = (if c \<in> set s then Some (length (takeWhile (\<lambda>x. x \<noteq> c) s)) else None)"

definition lastIndexOf :: "16 word \<Rightarrow> jsstring \<Rightarrow> nat option" where
  "lastIndexOf c s =
    (if c \<in> set s then Some (length s - 1 - length (takeWhile (\<lambda>x. x \<noteq> c) (rev s)))
     else None)"

text \<open>
  \<open>parseInt(val, 10)\<close>: leading white space is skipped, then an optional sign, then the
  longest run of decimal digits; \<open>None\<close> stands for \<open>NaN\<close> (no digit found). The
  result is the integer the run denotes, which is the JavaScript result when that integer
  is a safe integer.
\<close>

definition is_whitespace :: "16 word \<Rightarrow> bool" where
  "is_whitespace c =
    (c \<in> {0x09, 0x0A, 0x0B, 0x0C, 0x0D, 0x20, 0xA0, 0x1680, 0x2028, 0x2029, 0x202F, 0x205F,
          0x3000, 0xFEFF} \<or> (0x2000 \<le> c \<and> c \<le> 0x200A))"

definition parseInt :: "jsstring \<Rightarrow> int option" where
  "parseInt s =
    (let t = dropWhile is_whitespace s;
         negative = (t \<noteq> [] \<and> hd t = 0x2D);
         u = (if t \<noteq> [] \<and> (hd t = 0x2B \<or> hd t = 0x2D) then tl t else t);
         ds = takeWhile is_digit u
     in if ds = [] then None
        else Some (if negative then - int (dec_value ds) else int (dec_value ds)))"

record parse_state =
  builder :: PaginateQueryBuilder
  searchByValues :: "jsstring list"
  filterMap :: "(jsstring list) jsobject"

text \<open>
  The dispatch on a decoded key. \<open>filterMap\<close> is a plain object literal: for a column
  named like a member of \<open>Object.prototype\<close> the test \<open>!filterMap[col]\<close> finds the
  inherited member, no array is created, and \<open>filterMap[col].push\<close> is not a function.
\<close>

definition dispatch :: "jsstring \<Rightarrow> jsstring \<Rightarrow> parse_state \<Rightarrow> error + parse_state" where
  "dispatch key val st =
    (if key = js ''page'' then
       (case parseInt val of
          Some n \<Rightarrow> Inr (st\<lparr>builder := page n (builder st)\<rparr>)
        | None \<Rightarrow> Inr st)
     else if key = js ''limit'' then
       (case parseInt val of
          Some n \<Rightarrow> Inr (st\<lparr>builder := limit n (builder st)\<rparr>)
        | None \<Rightarrow> Inr st)
     else if key = js ''sortBy'' then
       (case lastIndexOf 0x3A val of
          Some colonIdx \<Rightarrow>
            Inr (st\<lparr>builder := sortBy (take colonIdx val) (drop (colonIdx + 1) val) (builder st)\<rparr>)
        | None \<Rightarrow> Inr st)
     else if key = js ''search'' then Inr (st\<lparr>builder := search val (builder st)\<rparr>)
     else if key = js ''searchBy'' then Inr (st\<lparr>searchByValues := searchByValues st @ [val]\<rparr>)
     else if key = js ''select'' then Inr (st\<lparr>builder := select (split 0x2C val) (builder st)\<rparr>)
     else if key = js ''cursor'' then Inr (st\<lparr>builder := cursor val (builder st)\<rparr>)
     else if key = js ''withDeleted'' then
       Inr (st\<lparr>builder := withDeleted (val = js ''true'') (builder st)\<rparr>)
     else if take 7 key = js ''filter.'' then
       (let col = drop 7 key
        in case obj_get (filterMap st) col of
             Some vs \<Rightarrow> Inr (st\<lparr>filterMap := obj_set col (vs @ [val]) (filterMap st)\<rparr>)
           | None \<Rightarrow>
               if col \<in> set Object_prototype_keys then Inl TypeError
               else Inr (st\<lparr>filterMap := obj_set col [val] (filterMap st)\<rparr>))
     else Inr st)"

definition parse_pair :: "jsstring \<Rightarrow> parse_state \<Rightarrow> error + parse_state" where
  "parse_pair pair st =
    (if pair = [] then Inr st
     else (case indexOf 0x3D pair of
             None \<Rightarrow> Inr st
           | Some eqIdx \<Rightarrow>
               (case decodeURIComponent (take eqIdx pair) of
                  Inl e \<Rightarrow> Inl e
                | Inr key \<Rightarrow>
                    (case decodeURIComponent (drop (eqIdx + 1) pair) of
                       Inl e \<Rightarrow> Inl e
                     | Inr val \<Rightarrow> dispatch key val st))))"

fun parse_pairs :: "jsstring list \<Rightarrow> parse_state \<Rightarrow> error + parse_state" where
  "parse_pairs [] st = Inr st"
| "parse_pairs (pair # rest) st =
    (case parse_pair pair st of
       Inl e \<Rightarrow> Inl e
     | Inr st' \<Rightarrow> parse_pairs rest st')"

definition finish :: "parse_state \<Rightarrow> PaginateQueryBuilder" where
  "finish st =
    (let b1 = (if length (searchByValues st) \<noteq> 0
               then searchBy (searchByValues st) (builder st) else builder st)
     in fold (\<lambda>(col, values) b. filter_by col (Multi values) b)
          (Object_entries (filterMap st)) b1)"

definition fromQueryString :: "jsstring \<Rightarrow> error + PaginateQueryBuilder" where
  "fromQueryString qs =
    (let queryStr = (if qs \<noteq> [] \<and> hd qs = 0x3F then tl qs else qs)
     in if queryStr = [] then Inr newBuilder
        else (case parse_pairs (split 0x26 queryStr)
                     \<lparr>builder = newBuilder, searchByValues = [], filterMap = []\<rparr> of
                Inl e \<Rightarrow> Inl e
              | Inr st \<Rightarrow> Inr (finish st)))"

section \<open>The builder in a store (\<open>clone\<close>)\<close>

text \<open>
  Whether two builders share a container is not visible in the value model, where a copy
  is the value itself. For \<open>clone\<close> the objects of the program are therefore kept in a
  store: a list of cells, an address being an index into it, and allocation appending a
  cell. A builder object holds its numbers, strings and flags directly and refers to its
  four containers. The array \<open>_sortBy\<close> and the object \<open>_filter\<close> are private and never
  handed out, so they are cells of a kind of their own; \<open>_searchBy\<close>, \<open>_select\<close>, the
  array-valued filter entries and the arrays a caller passes are all arrays of the same
  kind, and any of them may be the same array.

  An array element is a string, except that \<open>filter\<close> can put a value read from the
  prototype chain of \<open>_filter\<close> in front of its tokens: a function found on
  \<open>Array.prototype\<close> or \<open>Object.prototype\<close> under some name, a number (the length of the
  array that is the prototype), or \<open>Object.prototype\<close> itself. The object \<open>_filter\<close> has
  its own properties and its prototype, which is \<open>Object.prototype\<close> until an assignment
  to the key \<open>__proto__\<close> replaces it by an array.
\<close>

type_synonym addr = nat

datatype origin = ArrayPrototype | ObjectPrototype

datatype elem = EStr jsstring | EFun origin jsstring | ENum nat | EObjectPrototype

datatype fval = FStr jsstring | FRef addr

record builder_obj =
  o_page :: "int option"
  o_limit :: "int option"
  o_sortBy :: addr
  o_search :: "jsstring option"
  o_searchBy :: addr
  o_select :: addr
  o_filter :: addr
  o_cursor :: "jsstring option"
  o_withDeleted :: "bool option"

datatype cell =
    Builder builder_obj
  | SortArray "addr list"
  | Tuple jsstring jsstring
  | Array "elem list"
  | Object "fval jsobject" "addr option"

type_synonym heap = "cell list"

definition alloc :: "cell \<Rightarrow> heap \<Rightarrow> addr \<times> heap" where
  "alloc c h = (length h, h @ [c])"

definition cell_at :: "heap \<Rightarrow> addr \<Rightarrow> cell option" where
  "cell_at h a = (if a < length h then Some (h ! a) else None)"

text \<open>Reading a cell as an object of the expected class; \<open>None\<close> if it is none.\<close>

definition builder_at :: "heap \<Rightarrow> addr \<Rightarrow> builder_obj option" where
  "builder_at h a = (case cell_at h a of Some (Builder b) \<Rightarrow> Some b | _ \<Rightarrow> None)"

definition sort_at :: "heap \<Rightarrow> addr \<Rightarrow> addr list option" where
  "sort_at h a = (case cell_at h a of Some (SortArray rules) \<Rightarrow> Some rules | _ \<Rightarrow> None)"

definition tuple_at :: "heap \<Rightarrow> addr \<Rightarrow> (jsstring \<times> jsstring) option" where
  "tuple_at h a = (case cell_at h a of Some (Tuple col dir) \<Rightarrow> Some (col, dir) | _ \<Rightarrow> None)"

definition array_at :: "heap \<Rightarrow> addr \<Rightarrow> elem list option" where
  "array_at h a = (case cell_at h a of Some (Array es) \<Rightarrow> Some es | _ \<Rightarrow> None)"

definition object_at :: "heap \<Rightarrow> addr \<Rightarrow> (fval jsobject \<times> addr option) option" where
  "object_at h a = (case cell_at h a of Some (Object own proto) \<Rightarrow> Some (own, proto) | _ \<Rightarrow> None)"

fun string_of :: "elem \<Rightarrow> jsstring option" where
  "string_of (EStr s) = Some s"
| "string_of e = None"

text \<open>An array of strings, the type of every array argument of the public methods.\<close>

definition strings_at :: "heap \<Rightarrow> addr \<Rightarrow> jsstring list option" where
  "strings_at h a =
     (case array_at h a of Some es \<Rightarrow> those (map string_of es) | None \<Rightarrow> None)"

text \<open>
  \<open>new PaginateQueryBuilder()\<close>: the field initialisers allocate the three empty arrays
  and the empty object.
\<close>

definition new_builder :: "heap \<Rightarrow> addr \<times> heap" where
  "new_builder h =
    (let (s, h1) = alloc (SortArray []) h;
         (sb, h2) = alloc (Array []) h1;
         (sl, h3) = alloc (Array []) h2;
         (f, h4) = alloc (Object [] None) h3
     in alloc (Builder \<lparr>o_page = None, o_limit = None, o_sortBy = s, o_search = None,
                 o_searchBy = sb, o_select = sl, o_filter = f, o_cursor = None,
                 o_withDeleted = None\<rparr>) h4)"

text \<open>
  The mutators, with the address of \<open>this\<close>. They return the new store (the method itself
  returns \<open>this\<close>); \<open>None\<close> means that \<open>this\<close> is not a builder or that an array argument is
  not an array of strings. \<open>sortBy\<close> pushes a new tuple onto the array in place;
  \<open>searchBy\<close> and \<open>select\<close> store a copy (\<open>slice\<close>) of the argument.
\<close>

definition page_h :: "int \<Rightarrow> addr \<Rightarrow> heap \<Rightarrow> heap option" where
  "page_h n this h =
     (case builder_at h this of
        Some b \<Rightarrow> Some (h[this := Builder (b\<lparr>o_page := Some n\<rparr>)])
      | None \<Rightarrow> None)"

definition limit_h :: "int \<Rightarrow> addr \<Rightarrow> heap \<Rightarrow> heap option" where
  "limit_h n this h =
     (case builder_at h this of
        Some b \<Rightarrow> Some (h[this := Builder (b\<lparr>o_limit := Some n\<rparr>)])
      | None \<Rightarrow> None)"

definition sortBy_h :: "jsstring \<Rightarrow> jsstring \<Rightarrow> addr \<Rightarrow> heap \<Rightarrow> heap option" where
  "sortBy_h column direction this h =
     (case builder_at h this of
        Some b \<Rightarrow>
          (case sort_at h (o_sortBy b) of
             Some rules \<Rightarrow>
               (let (t, h1) = alloc (Tuple column direction) h
                in Some (h1[o_sortBy b := SortArray (rules @ [t])]))
           | None \<Rightarrow> None)
      | None \<Rightarrow> None)"

definition search_h :: "jsstring \<Rightarrow> addr \<Rightarrow> heap \<Rightarrow> heap option" where
  "search_h term this h =
     (case builder_at h this of
        Some b \<Rightarrow> Some (h[this := Builder (b\<lparr>o_search := Some term\<rparr>)])
      | None \<Rightarrow> None)"

definition searchBy_h :: "addr \<Rightarrow> addr \<Rightarrow> heap \<Rightarrow> heap option" where
  "searchBy_h columns this h =
     (case builder_at h this of
        Some b \<Rightarrow>
          (case strings_at h columns of
             Some xs \<Rightarrow>
               (let (r, h1) = alloc (Array (map EStr xs)) h
                in Some (h1[this := Builder (b\<lparr>o_searchBy := r\<rparr>)]))
           | None \<Rightarrow> None)
      | None \<Rightarrow> None)"

definition select_h :: "addr \<Rightarrow> addr \<Rightarrow> heap \<Rightarrow> heap option" where
  "select_h columns this h =
     (case builder_at h this of
        Some b \<Rightarrow>
          (case strings_at h columns of
             Some xs \<Rightarrow>
               (let (r, h1) = alloc (Array (map EStr xs)) h
                in Some (h1[this := Builder (b\<lparr>o_select := r\<rparr>)]))
           | None \<Rightarrow> None)
      | None \<Rightarrow> None)"

definition cursor_h :: "jsstring \<Rightarrow> addr \<Rightarrow> heap \<Rightarrow> heap option" where
  "cursor_h c this h =
     (case builder_at h this of
        Some b \<Rightarrow> Some (h[this := Builder (b\<lparr>o_cursor := Some c\<rparr>)])
      | None \<Rightarrow> None)"

definition withDeleted_h :: "bool \<Rightarrow> addr \<Rightarrow> heap \<Rightarrow> heap option" where
  "withDeleted_h v this h =
     (case builder_at h this of
        Some b \<Rightarrow> Some (h[this := Builder (b\<lparr>o_withDeleted := Some v\<rparr>)])
      | None \<Rightarrow> None)"

text \<open>
  The read \<open>this._filter[key]\<close>. An own property is found first. Otherwise the prototype
  chain is followed: if the prototype is an array, its elements under their indices and
  its \<open>length\<close>, then the members of \<open>Array.prototype\<close>; at the end the members of
  \<open>Object.prototype\<close>, where the getter of \<open>__proto__\<close> yields the prototype of
  \<open>_filter\<close>. The names of the members of \<open>Array.prototype\<close> depend on the edition of the
  language and are a parameter, \<open>ap\<close>.
\<close>

datatype found = Undefined | Prim elem | Arr addr

definition from_Object_prototype :: "addr option \<Rightarrow> jsstring \<Rightarrow> found" where
  "from_Object_prototype proto key =
     (if key = js ''__proto__'' then (case proto of None \<Rightarrow> Prim EObjectPrototype | Some p \<Rightarrow> Arr p)
      else if key \<in> set Object_prototype_keys then Prim (EFun ObjectPrototype key)
      else Undefined)"

definition from_array :: "jsstring list \<Rightarrow> elem list \<Rightarrow> addr option \<Rightarrow> jsstring \<Rightarrow> found" where
  "from_array ap es proto key =
     (case array_index key of
        Some i \<Rightarrow> if i < length es then Prim (es ! i) else from_Object_prototype proto key
      | None \<Rightarrow>
          if key = js ''length'' then Prim (ENum (length es))
          else if key \<in> set ap then Prim (EFun ArrayPrototype key)
          else from_Object_prototype proto key)"

definition read_property ::
    "jsstring list \<Rightarrow> heap \<Rightarrow> fval jsobject \<Rightarrow> addr option \<Rightarrow> jsstring \<Rightarrow> found option" where
  "read_property ap h own proto key =
     (case obj_get own key of
        Some (FStr s) \<Rightarrow> Some (Prim (EStr s))
      | Some (FRef r) \<Rightarrow> Some (Arr r)
      | None \<Rightarrow>
          (case proto of
             None \<Rightarrow> Some (from_Object_prototype proto key)
           | Some p \<Rightarrow>
               (case array_at h p of
                  Some es \<Rightarrow> Some (from_array ap es proto key)
                | None \<Rightarrow> None)))"

fun truthy_h :: "found \<Rightarrow> bool" where
  "truthy_h Undefined = False"
| "truthy_h (Prim (EStr s)) = (s \<noteq> [])"
| "truthy_h (Prim (ENum n)) = (n \<noteq> 0)"
| "truthy_h (Prim (EFun origin name)) = True"
| "truthy_h (Prim EObjectPrototype) = True"
| "truthy_h (Arr r) = True"

text \<open>
  \<open>filter(column, token)\<close>. \<open>next\<close> is the token array itself when the token is an array.
  A truthy existing value gives a new array (the spread); otherwise a single token is
  stored as a string and any other token array is stored as it is, by reference. The
  assignment creates or updates an own property, except for the key \<open>__proto__\<close>, where
  it reaches the setter inherited from \<open>Object.prototype\<close>: the array becomes the
  prototype of \<open>_filter\<close>, and a string is ignored.
\<close>

datatype token = TString jsstring | TArray addr

definition token_array :: "heap \<Rightarrow> token \<Rightarrow> jsstring list option" where
  "token_array h token = (case token of TString t \<Rightarrow> Some [t] | TArray r \<Rightarrow> strings_at h r)"

definition spread :: "heap \<Rightarrow> found \<Rightarrow> elem list option" where
  "spread h existing =
     (case existing of Arr r \<Rightarrow> array_at h r | Prim e \<Rightarrow> Some [e] | Undefined \<Rightarrow> Some [])"

definition filter_value ::
    "heap \<Rightarrow> found \<Rightarrow> token \<Rightarrow> jsstring list \<Rightarrow> (fval \<times> heap) option" where
  "filter_value h existing token next =
     (if truthy_h existing then
        (case spread h existing of
           None \<Rightarrow> None
         | Some es \<Rightarrow> (let (r, h1) = alloc (Array (es @ map EStr next)) h in Some (FRef r, h1)))
      else if length next = 1 then Some (FStr (next ! 0), h)
      else (case token of
              TArray r \<Rightarrow> Some (FRef r, h)
            | TString t \<Rightarrow> Some (FStr t, h)))"

definition assign_property ::
    "addr \<Rightarrow> fval jsobject \<Rightarrow> addr option \<Rightarrow> jsstring \<Rightarrow> fval \<Rightarrow> heap \<Rightarrow> heap" where
  "assign_property f own proto key v h =
     (if key = js ''__proto__'' then
        (case v of
           FRef r \<Rightarrow> h[f := Object own (Some r)]
         | FStr s \<Rightarrow> h)
      else h[f := Object (obj_set key v own) proto])"

definition filter_h :: "jsstring list \<Rightarrow> jsstring \<Rightarrow> token \<Rightarrow> addr \<Rightarrow> heap \<Rightarrow> heap option" where
  "filter_h ap column token this h =
     (case builder_at h this of
        None \<Rightarrow> None
      | Some b \<Rightarrow>
     (case object_at h (o_filter b) of
        None \<Rightarrow> None
      | Some (own, proto) \<Rightarrow>
     (case read_property ap h own proto column of
        None \<Rightarrow> None
      | Some existing \<Rightarrow>
     (case token_array h token of
        None \<Rightarrow> None
      | Some next \<Rightarrow>
     (case filter_value h existing token next of
        None \<Rightarrow> None
      | Some (v, h1) \<Rightarrow> Some (assign_property (o_filter b) own proto column v h1))))))"

text \<open>
  \<open>clone()\<close>. The tuples of \<open>_sortBy\<close> are copied one by one into a new array, \<open>_searchBy\<close>
  and \<open>_select\<close> are spread into new arrays, and the entries of \<open>_filter\<close>, in the order of
  \<open>Object.entries\<close>, go into a new object, each array value spread into a new array.
\<close>

fun copy_tuples :: "addr list \<Rightarrow> heap \<Rightarrow> (addr list \<times> heap) option" where
  "copy_tuples [] h = Some ([], h)"
| "copy_tuples (t # ts) h =
     (case tuple_at h t of
        None \<Rightarrow> None
      | Some (col, dir) \<Rightarrow>
          (let (t', h1) = alloc (Tuple col dir) h
           in case copy_tuples ts h1 of
                None \<Rightarrow> None
              | Some (ts', h2) \<Rightarrow> Some (t' # ts', h2)))"

fun copy_entries ::
    "(jsstring \<times> fval) list \<Rightarrow> heap \<Rightarrow> ((jsstring \<times> fval) list \<times> heap) option" where
  "copy_entries [] h = Some ([], h)"
| "copy_entries ((k, FStr s) # es) h =
     (case copy_entries es h of
        None \<Rightarrow> None
      | Some (es', h1) \<Rightarrow> Some ((k, FStr s) # es', h1))"
| "copy_entries ((k, FRef r) # es) h =
     (case array_at h r of
        None \<Rightarrow> None
      | Some xs \<Rightarrow>
          (let (r', h1) = alloc (Array xs) h
           in case copy_entries es h1 of
                None \<Rightarrow> None
              | Some (es', h2) \<Rightarrow> Some ((k, FRef r') # es', h2)))"

definition Object_fromEntries :: "(jsstring \<times> 'v) list \<Rightarrow> 'v jsobject" where
  "Object_fromEntries es = fold (\<lambda>(k, v) obj. obj_set k v obj) es []"

text \<open>\<open>this._sortBy.map(([col, dir]) => [col, dir])\<close>\<close>

definition copy_sort :: "addr \<Rightarrow> heap \<Rightarrow> (addr \<times> heap) option" where
  "copy_sort r h =
     (case sort_at h r of
        None \<Rightarrow> None
      | Some rules \<Rightarrow>
          (case copy_tuples rules h of
             None \<Rightarrow> None
           | Some (rules', h1) \<Rightarrow> Some (alloc (SortArray rules') h1)))"

text \<open>\<open>[...this._searchBy]\<close> and \<open>[...this._select]\<close>\<close>

definition copy_array :: "addr \<Rightarrow> heap \<Rightarrow> (addr \<times> heap) option" where
  "copy_array r h =
     (case array_at h r of
        None \<Rightarrow> None
      | Some es \<Rightarrow> Some (alloc (Array es) h))"

text \<open>
  \<open>Object.fromEntries(Object.entries(this._filter).map(([k, v]) => [k, Array.isArray(v) ? [...v] : v]))\<close>
\<close>

definition copy_filter :: "addr \<Rightarrow> heap \<Rightarrow> (addr \<times> heap) option" where
  "copy_filter r h =
     (case object_at h r of
        None \<Rightarrow> None
      | Some (own, proto) \<Rightarrow>
          (case copy_entries (Object_entries own) h of
             None \<Rightarrow> None
           | Some (entries, h1) \<Rightarrow> Some (alloc (Object (Object_fromEntries entries) None) h1)))"

text \<open>
  The copy is a new builder; its fields are written here in one step after the
  containers have been copied, which read the original only.
\<close>

definition clone :: "addr \<Rightarrow> heap \<Rightarrow> (addr \<times> heap) option" where
  "clone this h =
     (case builder_at h this of
        None \<Rightarrow> None
      | Some b \<Rightarrow>
     (let (copy, h0) = new_builder h in
      case copy_sort (o_sortBy b) h0 of
        None \<Rightarrow> None
      | Some (s, h1) \<Rightarrow>
     (case copy_array (o_searchBy b) h1 of
        None \<Rightarrow> None
      | Some (sb, h2) \<Rightarrow>
     (case copy_array (o_select b) h2 of
        None \<Rightarrow> None
      | Some (sl, h3) \<Rightarrow>
     (case copy_filter (o_filter b) h3 of
        None \<Rightarrow> None
      | Some (f, h4) \<Rightarrow>
          Some (copy,
            h4[copy := Builder \<lparr>o_page = o_page b, o_limit = o_limit b, o_sortBy = s,
                         o_search = o_search b, o_searchBy = sb, o_select = sl, o_filter = f,
                         o_cursor = o_cursor b, o_withDeleted = o_withDeleted b\<rparr>]))))))"

text \<open>
  \<open>toParams()\<close> on the store. The entries other than the filters are those of \<open>toParams\<close>
  on the fields read from the store; a filter entry is a string or the array found at
  its reference, with whatever elements that array holds.
\<close>

datatype rvalue = RString jsstring | RArray "elem list"

fun rvalue_of :: "pvalue \<Rightarrow> rvalue" where
  "rvalue_of (Single s) = RString s"
| "rvalue_of (Multi xs) = RArray (map EStr xs)"

definition read_fields :: "heap \<Rightarrow> addr \<Rightarrow> PaginateQueryBuilder option" where
  "read_fields h this =
     (case builder_at h this of
        None \<Rightarrow> None
      | Some b \<Rightarrow>
     (case sort_at h (o_sortBy b) of
        None \<Rightarrow> None
      | Some rules \<Rightarrow>
     (case those (map (tuple_at h) rules) of
        None \<Rightarrow> None
      | Some sortRules \<Rightarrow>
     (case strings_at h (o_searchBy b) of
        None \<Rightarrow> None
      | Some searchByColumns \<Rightarrow>
     (case strings_at h (o_select b) of
        None \<Rightarrow> None
      | Some selectColumns \<Rightarrow>
          Some \<lparr>b_page = o_page b, b_limit = o_limit b, b_sortBy = sortRules,
                b_search = o_search b, b_searchBy = searchByColumns, b_select = selectColumns,
                b_filter = [], b_cursor = o_cursor b, b_withDeleted = o_withDeleted b\<rparr>)))))"

fun read_entry :: "heap \<Rightarrow> jsstring \<times> fval \<Rightarrow> (jsstring \<times> rvalue) option" where
  "read_entry h (k, FStr s) = Some (k, RString s)"
| "read_entry h (k, FRef r) =
     (case array_at h r of Some es \<Rightarrow> Some (k, RArray es) | None \<Rightarrow> None)"

definition read_filter :: "heap \<Rightarrow> addr \<Rightarrow> (jsstring \<times> rvalue) list option" where
  "read_filter h this =
     (case builder_at h this of
        None \<Rightarrow> None
      | Some b \<Rightarrow>
     (case object_at h (o_filter b) of
        None \<Rightarrow> None
      | Some (own, proto) \<Rightarrow> those (map (read_entry h) (Object_entries own))))"

definition toParams_h :: "heap \<Rightarrow> addr \<Rightarrow> rvalue jsobject option" where
  "toParams_h h this =
     (case read_fields h this of
        None \<Rightarrow> None
      | Some state \<Rightarrow>
     (case read_filter h this of
        None \<Rightarrow> None
      | Some entries \<Rightarrow>
          Some (fold (\<lambda>(column, v) raw. obj_set (js ''filter.'' @ column) v raw) entries
                  (map (\<lambda>(k, v). (k, rvalue_of v)) (toParams state)))))"

text \<open>
  The cells a builder refers to: itself, its four containers, the tuples of its sort
  array, the arrays among its filter entries and the prototype of its filter object if
  that is an array.
\<close>

fun refs_of :: "(jsstring \<times> fval) list \<Rightarrow> addr list" where
  "refs_of [] = []"
| "refs_of ((k, FStr s) # es) = refs_of es"
| "refs_of ((k, FRef r) # es) = r # refs_of es"

definition cells_of :: "heap \<Rightarrow> addr \<Rightarrow> addr list" where
  "cells_of h this =
     (case builder_at h this of
        None \<Rightarrow> []
      | Some b \<Rightarrow>
          [this, o_sortBy b, o_searchBy b, o_select b, o_filter b]
          @ (case sort_at h (o_sortBy b) of None \<Rightarrow> [] | Some rules \<Rightarrow> rules)
          @ (case object_at h (o_filter b) of
               None \<Rightarrow> []
             | Some (own, proto) \<Rightarrow>
                 refs_of own @ (case proto of None \<Rightarrow> [] | Some p \<Rightarrow> [p])))"

text \<open>
  The calls on a builder in the store, and what happens after a \<open>clone\<close>: calls on the
  original, calls on the copy, and the caller creating arrays to pass.
\<close>

datatype hcall =
    HPage int
  | HLimit int
  | HSortBy jsstring SortDirection
  | HSearch jsstring
  | HSearchBy addr
  | HSelect addr
  | HFilter jsstring token
  | HCursor jsstring
  | HWithDeleted bool

fun apply_h :: "jsstring list \<Rightarrow> hcall \<Rightarrow> addr \<Rightarrow> heap \<Rightarrow> heap option" where
  "apply_h ap (HPage n) this h = page_h n this h"
| "apply_h ap (HLimit n) this h = limit_h n this h"
| "apply_h ap (HSortBy column direction) this h = sortBy_h column (direction_str direction) this h"
| "apply_h ap (HSearch term) this h = search_h term this h"
| "apply_h ap (HSearchBy columns) this h = searchBy_h columns this h"
| "apply_h ap (HSelect columns) this h = select_h columns this h"
| "apply_h ap (HFilter column token) this h = filter_h ap column token this h"
| "apply_h ap (HCursor c) this h = cursor_h c this h"
| "apply_h ap (HWithDeleted v) this h = withDeleted_h v this h"

text \<open>A call is well typed when its array argument is an array of strings.\<close>

fun typed :: "heap \<Rightarrow> hcall \<Rightarrow> bool" where
  "typed h (HSearchBy columns) = (strings_at h columns \<noteq> None)"
| "typed h (HSelect columns) = (strings_at h columns \<noteq> None)"
| "typed h (HFilter column (TArray r)) = (strings_at h r \<noteq> None)"
| "typed h c = True"

datatype step = OnOriginal hcall | OnCopy hcall | NewArray "jsstring list"

fun exec :: "jsstring list \<Rightarrow> step list \<Rightarrow> addr \<Rightarrow> addr \<Rightarrow> heap \<Rightarrow> heap option" where
  "exec ap [] original copy h = Some h"
| "exec ap (OnOriginal c # steps) original copy h =
     (case apply_h ap c original h of
        None \<Rightarrow> None
      | Some h1 \<Rightarrow> exec ap steps original copy h1)"
| "exec ap (OnCopy c # steps) original copy h =
     (case apply_h ap c copy h of
        None \<Rightarrow> None
      | Some h1 \<Rightarrow> exec ap steps original copy h1)"
| "exec ap (NewArray xs # steps) original copy h =
     exec ap steps original copy (snd (alloc (Array (map EStr xs)) h))"

text \<open>
  A well-formed builder: its fields refer to containers of the right classes, the sort
  array to tuples, the \<open>searchBy\<close> and \<open>select\<close> arrays hold strings, and the filter
  object has distinct keys and refers to arrays.
\<close>

fun valid_entry :: "heap \<Rightarrow> jsstring \<times> fval \<Rightarrow> bool" where
  "valid_entry h (k, FStr s) = True"
| "valid_entry h (k, FRef r) = (array_at h r \<noteq> None)"

definition wf_filter :: "heap \<Rightarrow> addr \<Rightarrow> bool" where
  "wf_filter h f =
     (case object_at h f of
        None \<Rightarrow> False
      | Some (own, proto) \<Rightarrow>
          distinct (map fst own) \<and> list_all (valid_entry h) own
          \<and> (case proto of None \<Rightarrow> True | Some p \<Rightarrow> array_at h p \<noteq> None))"

definition wf_fields :: "heap \<Rightarrow> builder_obj \<Rightarrow> bool" where
  "wf_fields h b =
     ((case sort_at h (o_sortBy b) of
         None \<Rightarrow> False
       | Some rules \<Rightarrow> list_all (\<lambda>t. tuple_at h t \<noteq> None) rules)
      \<and> strings_at h (o_searchBy b) \<noteq> None
      \<and> strings_at h (o_select b) \<noteq> None
      \<and> wf_filter h (o_filter b))"

definition wf_builder :: "heap \<Rightarrow> addr \<Rightarrow> bool" where
  "wf_builder h this = (case builder_at h this of None \<Rightarrow> False | Some b \<Rightarrow> wf_fields h b)"

text \<open>
  For the proofs: a store \<open>h'\<close> that has every cell of \<open>h\<close> outside a set \<open>W\<close> of
  addresses unchanged; the cells a builder writes in place (itself, its sort array and
  its filter object); two builders that share none of these.
\<close>

definition unchanged_outside :: "addr set \<Rightarrow> heap \<Rightarrow> heap \<Rightarrow> bool" where
  "unchanged_outside W h h' = (\<forall>x c. cell_at h x = Some c \<longrightarrow> x \<notin> W \<longrightarrow> cell_at h' x = Some c)"

definition container :: "heap \<Rightarrow> addr \<Rightarrow> bool" where
  "container h x = (builder_at h x \<noteq> None \<or> sort_at h x \<noteq> None \<or> object_at h x \<noteq> None)"

definition written :: "heap \<Rightarrow> addr \<Rightarrow> addr set" where
  "written h this =
     (case builder_at h this of Some b \<Rightarrow> {this, o_sortBy b, o_filter b} | None \<Rightarrow> {})"

definition separate :: "heap \<Rightarrow> addr \<Rightarrow> addr \<Rightarrow> bool" where
  "separate h a c = (wf_builder h a \<and> wf_builder h c \<and> written h a \<inter> written h c = {})"

section \<open>Closed forms of the serialiser, for the proofs\<close>

text \<open>
  The entries \<open>toParams\<close> writes, as a concatenation: one optional entry per scalar
  field, then one entry per filter column.
\<close>

definition opt_entry :: "jsstring \<Rightarrow> 'v option \<Rightarrow> 'v jsobject" where
  "opt_entry k vo = (case vo of Some v \<Rightarrow> [(k, v)] | None \<Rightarrow> [])"

definition common_entries :: "PaginateQueryBuilder \<Rightarrow> PaginateParamsRaw" where
  "common_entries b =
     opt_entry (js ''page'') (map_option (\<lambda>n. Single (String_int n)) (b_page b))
   @ opt_entry (js ''limit'') (map_option (\<lambda>n. Single (String_int n)) (b_limit b))
   @ opt_entry (js ''sortBy'')
       (if b_sortBy b \<noteq> [] then Some (Multi (map (\<lambda>(col, dir). col @ js '':'' @ dir) (b_sortBy b)))
        else None)
   @ opt_entry (js ''search'')
       (case b_search b of Some s \<Rightarrow> if s \<noteq> [] then Some (Single s) else None | None \<Rightarrow> None)
   @ opt_entry (js ''searchBy'') (if b_searchBy b \<noteq> [] then Some (Multi (b_searchBy b)) else None)
   @ opt_entry (js ''select'')
       (if b_select b \<noteq> [] then Some (Single (join (js '','') (b_select b))) else None)
   @ opt_entry (js ''cursor'') (map_option Single (b_cursor b))"

definition filter_entries :: "pvalue jsobject \<Rightarrow> PaginateParamsRaw" where
  "filter_entries flt = map (\<lambda>(c, v). (js ''filter.'' @ c, v)) (Object_entries flt)"

definition withDeleted_entry :: "PaginateQueryBuilder \<Rightarrow> PaginateParamsRaw" where
  "withDeleted_entry b =
     opt_entry (js ''withDeleted'') (if b_withDeleted b = Some True then Some (Single (js ''true'')) else None)"

text \<open>The tokens held by a filter entry, in order; none when the column has no entry.\<close>

fun tokens_of :: "pvalue option \<Rightarrow> jsstring list" where
  "tokens_of None = []"
| "tokens_of (Some v) = as_array v"

text \<open>
  What \<open>toQueryString\<close> is specified to emit: for every entry, in the order of
  \<open>Object.entries\<close>, one pair \<open>key=value\<close> per non-empty value, key and value
  percent-encoded. \<open>encoded\<close> is the output of \<open>encodeURIComponent\<close> where it
  returns; an entry is encodable when nothing it has to encode holds an unpaired
  surrogate.
\<close>

definition encoded :: "jsstring \<Rightarrow> jsstring" where
  "encoded s = (case encodeURIComponent s of Inr r \<Rightarrow> r | Inl e \<Rightarrow> [])"

definition nonempty_values :: "pvalue \<Rightarrow> jsstring list" where
  "nonempty_values v = filter (\<lambda>x. x \<noteq> []) (as_array v)"

definition entry_pairs :: "jsstring \<times> pvalue \<Rightarrow> jsstring list" where
  "entry_pairs e = map (\<lambda>x. encoded (fst e) @ js ''='' @ encoded x) (nonempty_values (snd e))"

definition pairs_of :: "(jsstring \<times> pvalue) list \<Rightarrow> jsstring list" where
  "pairs_of es = concat (map entry_pairs es)"

definition all_pairs :: "PaginateParamsRaw \<Rightarrow> jsstring list" where
  "all_pairs params = concat (map entry_pairs (Object_entries params))"

definition encodable_entry :: "jsstring \<times> pvalue \<Rightarrow> bool" where
  "encodable_entry e =
     (nonempty_values (snd e) = []
      \<or> (well_formed (fst e) \<and> list_all well_formed (nonempty_values (snd e))))"

definition encodable :: "PaginateParamsRaw \<Rightarrow> bool" where
  "encodable params = list_all encodable_entry params"

text \<open>
  The fragments of a query string, and the two ways \<open>fromQueryString\<close> treats one: a
  fragment is acceptable when the parser cannot throw on it, and skipped when the
  parser leaves its state as it was.
\<close>

definition fragments :: "jsstring \<Rightarrow> jsstring list" where
  "fragments qs = split 0x26 (if qs \<noteq> [] \<and> hd qs = 0x3F then tl qs else qs)"

definition initial_state :: parse_state where
  "initial_state = \<lparr>builder = newBuilder, searchByValues = [], filterMap = []\<rparr>"

definition returns :: "error + 'a \<Rightarrow> bool" where
  "returns r = (case r of Inr x \<Rightarrow> True | Inl e \<Rightarrow> False)"

definition known_key :: "jsstring \<Rightarrow> bool" where
  "known_key key =
     (key \<in> {js ''page'', js ''limit'', js ''sortBy'', js ''search'', js ''searchBy'',
             js ''select'', js ''cursor'', js ''withDeleted''}
      \<or> take 7 key = js ''filter.'')"

definition acceptable :: "jsstring \<Rightarrow> bool" where
  "acceptable pair =
    (case indexOf 0x3D pair of
       None \<Rightarrow> True
     | Some i \<Rightarrow>
         (case decodeURIComponent (take i pair) of
            Inl e \<Rightarrow> False
          | Inr key \<Rightarrow>
              (case decodeURIComponent (drop (i + 1) pair) of
                 Inl e \<Rightarrow> False
               | Inr val \<Rightarrow>
                   \<not> (known_key key \<and> take 7 key = js ''filter.''
                      \<and> drop 7 key \<in> set Object_prototype_keys))))"

definition skipped :: "jsstring \<Rightarrow> bool" where
  "skipped pair =
    (case indexOf 0x3D pair of
       None \<Rightarrow> True
     | Some i \<Rightarrow>
         (case decodeURIComponent (take i pair) of
            Inl e \<Rightarrow> False
          | Inr key \<Rightarrow>
              (case decodeURIComponent (drop (i + 1) pair) of
                 Inl e \<Rightarrow> False
               | Inr val \<Rightarrow>
                   (if key = js ''page'' \<or> key = js ''limit'' then parseInt val = None
                    else if key = js ''sortBy'' then lastIndexOf 0x3A val = None
                    else \<not> known_key key))))"

definition plain_map :: "parse_state \<Rightarrow> bool" where
  "plain_map st = (\<forall>k \<in> fst ` set (filterMap st). k \<notin> set Object_prototype_keys)"

text \<open>
  The decoded pairs behind a param map and behind a query string. \<open>kv_pairs\<close> lists the
  key-value pairs with a non-empty value, \<open>all_kv\<close> lists all of them;
  \<open>decoded_pairs\<close> reads a query string back: it strips a leading \<open>?\<close>, splits on
  \<open>&\<close>, splits every fragment on its first \<open>=\<close> and percent-decodes both sides.
\<close>

definition kv_of :: "jsstring \<times> pvalue \<Rightarrow> (jsstring \<times> jsstring) list" where
  "kv_of e = map (Pair (fst e)) (nonempty_values (snd e))"

definition kv_pairs :: "(jsstring \<times> pvalue) list \<Rightarrow> (jsstring \<times> jsstring) list" where
  "kv_pairs es = concat (map kv_of es)"

definition encode_kv :: "jsstring \<times> jsstring \<Rightarrow> jsstring" where
  "encode_kv kv = encoded (fst kv) @ js ''='' @ encoded (snd kv)"

definition decode_pair :: "jsstring \<Rightarrow> error + (jsstring \<times> jsstring)" where
  "decode_pair p =
    (case indexOf 0x3D p of
       None \<Rightarrow> (case decodeURIComponent p of Inl e \<Rightarrow> Inl e | Inr k \<Rightarrow> Inr (k, []))
     | Some i \<Rightarrow>
         (case decodeURIComponent (take i p) of
            Inl e \<Rightarrow> Inl e
          | Inr k \<Rightarrow>
              (case decodeURIComponent (drop (i + 1) p) of
                 Inl e \<Rightarrow> Inl e
               | Inr v \<Rightarrow> Inr (k, v))))"

fun decode_all :: "jsstring list \<Rightarrow> error + (jsstring \<times> jsstring) list" where
  "decode_all [] = Inr []"
| "decode_all (p # ps) =
    (case decode_pair p of
       Inl e \<Rightarrow> Inl e
     | Inr kv \<Rightarrow> (case decode_all ps of Inl e \<Rightarrow> Inl e | Inr kvs \<Rightarrow> Inr (kv # kvs)))"

definition decoded_pairs :: "jsstring \<Rightarrow> error + (jsstring \<times> jsstring) list" where
  "decoded_pairs qs =
    (let s = (if qs \<noteq> [] \<and> hd qs = 0x3F then tl qs else qs)
     in if s = [] then Inr [] else decode_all (split 0x26 s))"

definition wf_kv :: "jsstring \<times> jsstring \<Rightarrow> bool" where
  "wf_kv kv = (well_formed (fst kv) \<and> well_formed (snd kv))"

definition usv_kv :: "jsstring \<times> jsstring \<Rightarrow> jsstring \<times> jsstring" where
  "usv_kv kv = (to_USVString (fst kv), to_USVString (snd kv))"

definition all_kv :: "(jsstring \<times> pvalue) list \<Rightarrow> (jsstring \<times> jsstring) list" where
  "all_kv es = concat (map (\<lambda>e. map (Pair (fst e)) (as_array (snd e))) es)"

text \<open>
  For the round trip: the dispatch of a list of decoded pairs, the query string of such
  a list, the split of a sort rule at its last colon, the side conditions under which a
  builder state survives serialisation, and the builder that parsing the serialised
  state yields.
\<close>

fun dispatch_all :: "(jsstring \<times> jsstring) list \<Rightarrow> parse_state \<Rightarrow> error + parse_state" where
  "dispatch_all [] st = Inr st"
| "dispatch_all (kv # kvs) st =
    (case dispatch (fst kv) (snd kv) st of
       Inl e \<Rightarrow> Inl e
     | Inr st' \<Rightarrow> dispatch_all kvs st')"

definition resplit :: "jsstring \<Rightarrow> jsstring \<times> jsstring" where
  "resplit s = (case lastIndexOf 0x3A s of
                  Some i \<Rightarrow> (take i s, drop (i + 1) s)
                | None \<Rightarrow> (s, []))"

definition query_of :: "(jsstring \<times> jsstring) list \<Rightarrow> jsstring" where
  "query_of kvs = (if map encode_kv kvs = [] then []
                   else js ''?'' @ join (js ''&'') (map encode_kv kvs))"

definition filter_entry_ok :: "jsstring \<times> pvalue \<Rightarrow> bool" where
  "filter_entry_ok e =
     (fst e \<notin> set Object_prototype_keys
      \<and> (case snd e of Single s \<Rightarrow> s \<noteq> [] | Multi xs \<Rightarrow> 2 \<le> length xs \<and> [] \<notin> set xs))"

definition round_trips :: "PaginateQueryBuilder \<Rightarrow> bool" where
  "round_trips b =
     ((case b_page b of Some n \<Rightarrow> safe_integer n | None \<Rightarrow> True)
      \<and> (case b_limit b of Some n \<Rightarrow> safe_integer n | None \<Rightarrow> True)
      \<and> b_cursor b \<noteq> Some [] \<and> [] \<notin> set (b_searchBy b) \<and> b_select b \<noteq> [[]]
      \<and> list_all filter_entry_ok (b_filter b) \<and> encodable (toParams b))"

definition reparsed :: "PaginateQueryBuilder \<Rightarrow> PaginateQueryBuilder" where
  "reparsed b =
     \<lparr>b_page = b_page b, b_limit = b_limit b,
      b_sortBy = map (\<lambda>(col, dir). resplit (col @ js '':'' @ dir)) (b_sortBy b),
      b_search = (if b_search b = Some [] then None else b_search b),
      b_searchBy = b_searchBy b,
      b_select = (if b_select b = [] then [] else split 0x2C (join (js '','') (b_select b))),
      b_filter = Object_entries (b_filter b),
      b_cursor = b_cursor b,
      b_withDeleted = (if b_withDeleted b = Some True then Some True else None)\<rparr>"

definition filter_kv :: "(jsstring \<times> pvalue) list \<Rightarrow> (jsstring \<times> jsstring) list" where
  "filter_kv es = concat (map (\<lambda>e. map (Pair (js ''filter.'' @ fst e)) (as_array (snd e))) es)"

section \<open>Objects and the entries of \<open>toParams\<close>\<close>

lemma obj_get_Nil [simp]: "obj_get [] k = None"
  by (simp add: obj_get_def)

lemma obj_get_obj_set: "obj_get (obj_set k v obj) k' = (if k' = k then Some v else obj_get obj k')"
  by (induction k v obj rule: obj_set.induct) (auto simp: obj_get_def)

lemma obj_set_new: "k \<notin> fst ` set obj \<Longrightarrow> obj_set k v obj = obj @ [(k, v)]"
  by (induction k v obj rule: obj_set.induct) auto

lemma keys_opt_entry: "k \<noteq> k0 \<Longrightarrow> k \<notin> fst ` set (opt_entry k0 vo)"
  by (cases vo) (auto simp: opt_entry_def)

lemma set_opt_case:
  "k \<notin> fst ` set raw \<Longrightarrow>
   (case x of Some n \<Rightarrow> obj_set k (f n) raw | None \<Rightarrow> raw) = raw @ opt_entry k (map_option f x)"
  by (cases x) (simp_all add: opt_entry_def obj_set_new)

lemma set_opt_if:
  "k \<notin> fst ` set raw \<Longrightarrow>
   (if c then obj_set k v raw else raw) = raw @ opt_entry k (if c then Some v else None)"
  by (simp add: opt_entry_def obj_set_new)

lemma set_opt_search:
  "k \<notin> fst ` set raw \<Longrightarrow>
   (case x of Some s \<Rightarrow> if s \<noteq> [] then obj_set k (Single s) raw else raw | None \<Rightarrow> raw)
     = raw @ opt_entry k (case x of Some s \<Rightarrow> if s \<noteq> [] then Some (Single s) else None
                                  | None \<Rightarrow> None)"
  by (cases x) (simp_all add: opt_entry_def obj_set_new)

lemma key_neqs:
  "js ''limit'' \<noteq> js ''page''"
  "js ''sortBy'' \<noteq> js ''page''" "js ''sortBy'' \<noteq> js ''limit''"
  "js ''search'' \<noteq> js ''page''" "js ''search'' \<noteq> js ''limit''" "js ''search'' \<noteq> js ''sortBy''"
  "js ''searchBy'' \<noteq> js ''page''" "js ''searchBy'' \<noteq> js ''limit''"
  "js ''searchBy'' \<noteq> js ''sortBy''" "js ''searchBy'' \<noteq> js ''search''"
  "js ''select'' \<noteq> js ''page''" "js ''select'' \<noteq> js ''limit''" "js ''select'' \<noteq> js ''sortBy''"
  "js ''select'' \<noteq> js ''search''" "js ''select'' \<noteq> js ''searchBy''"
  "js ''cursor'' \<noteq> js ''page''" "js ''cursor'' \<noteq> js ''limit''" "js ''cursor'' \<noteq> js ''sortBy''"
  "js ''cursor'' \<noteq> js ''search''" "js ''cursor'' \<noteq> js ''searchBy''" "js ''cursor'' \<noteq> js ''select''"
  "js ''withDeleted'' \<noteq> js ''page''" "js ''withDeleted'' \<noteq> js ''limit''"
  "js ''withDeleted'' \<noteq> js ''sortBy''" "js ''withDeleted'' \<noteq> js ''search''"
  "js ''withDeleted'' \<noteq> js ''searchBy''" "js ''withDeleted'' \<noteq> js ''select''"
  "js ''withDeleted'' \<noteq> js ''cursor''"
  by (simp_all add: js_def)

lemma common_params_eq: "common_params b = common_entries b"
proof -
  let ?e1 = "opt_entry (js ''page'') (map_option (\<lambda>n. Single (String_int n)) (b_page b))"
  let ?e2 = "opt_entry (js ''limit'') (map_option (\<lambda>n. Single (String_int n)) (b_limit b))"
  let ?e3 = "opt_entry (js ''sortBy'')
       (if b_sortBy b \<noteq> [] then Some (Multi (map (\<lambda>(col, dir). col @ js '':'' @ dir) (b_sortBy b)))
        else None)"
  let ?e4 = "opt_entry (js ''search'')
       (case b_search b of Some s \<Rightarrow> if s \<noteq> [] then Some (Single s) else None | None \<Rightarrow> None)"
  let ?e5 = "opt_entry (js ''searchBy'') (if b_searchBy b \<noteq> [] then Some (Multi (b_searchBy b)) else None)"
  let ?e6 = "opt_entry (js ''select'')
       (if b_select b \<noteq> [] then Some (Single (join (js '','') (b_select b))) else None)"
  let ?e7 = "opt_entry (js ''cursor'') (map_option Single (b_cursor b))"
  let ?r1 = "(case b_page b of
                   Some n \<Rightarrow> obj_set (js ''page'') (Single (String_int n)) []
                 | None \<Rightarrow> [])"
  have r1: "?r1 = ?e1"
    by (simp add: set_opt_case)
  let ?r2 = "(case b_limit b of
                   Some n \<Rightarrow> obj_set (js ''limit'') (Single (String_int n)) ?e1
                 | None \<Rightarrow> ?e1)"
  have r2: "?r2 = ?e1 @ ?e2"
    by (simp add: set_opt_case keys_opt_entry key_neqs)
  let ?r3 = "(if length (b_sortBy b) \<noteq> 0
                 then obj_set (js ''sortBy'')
                        (Multi (map (\<lambda>(col, dir). col @ js '':'' @ dir) (b_sortBy b))) (?e1 @ ?e2)
                 else ?e1 @ ?e2)"
  have r3: "?r3 = ?e1 @ ?e2 @ ?e3"
    using set_opt_if [of "js ''sortBy''" "?e1 @ ?e2" "b_sortBy b \<noteq> []"]
    by (simp add: keys_opt_entry key_neqs image_Un)
  let ?r4 = "(case b_search b of
                   Some s \<Rightarrow> if s \<noteq> [] then obj_set (js ''search'') (Single s) (?e1 @ ?e2 @ ?e3)
                             else ?e1 @ ?e2 @ ?e3
                 | None \<Rightarrow> ?e1 @ ?e2 @ ?e3)"
  have r4: "?r4 = ?e1 @ ?e2 @ ?e3 @ ?e4"
    using set_opt_search [of "js ''search''" "?e1 @ ?e2 @ ?e3" "b_search b"]
    by (simp add: keys_opt_entry key_neqs image_Un)
  let ?r5 = "(if length (b_searchBy b) \<noteq> 0
                 then obj_set (js ''searchBy'') (Multi (b_searchBy b)) (?e1 @ ?e2 @ ?e3 @ ?e4)
                 else ?e1 @ ?e2 @ ?e3 @ ?e4)"
  have r5: "?r5 = ?e1 @ ?e2 @ ?e3 @ ?e4 @ ?e5"
    using set_opt_if [of "js ''searchBy''" "?e1 @ ?e2 @ ?e3 @ ?e4" "b_searchBy b \<noteq> []"]
    by (simp add: keys_opt_entry key_neqs image_Un)
  let ?r6 = "(if length (b_select b) \<noteq> 0
                 then obj_set (js ''select'') (Single (join (js '','') (b_select b)))
                        (?e1 @ ?e2 @ ?e3 @ ?e4 @ ?e5)
                 else ?e1 @ ?e2 @ ?e3 @ ?e4 @ ?e5)"
  have r6: "?r6 = ?e1 @ ?e2 @ ?e3 @ ?e4 @ ?e5 @ ?e6"
    using set_opt_if [of "js ''select''" "?e1 @ ?e2 @ ?e3 @ ?e4 @ ?e5" "b_select b \<noteq> []"]
    by (simp add: keys_opt_entry key_neqs image_Un)
  let ?r7 = "(case b_cursor b of
                   Some c \<Rightarrow> obj_set (js ''cursor'') (Single c) (?e1 @ ?e2 @ ?e3 @ ?e4 @ ?e5 @ ?e6)
                 | None \<Rightarrow> ?e1 @ ?e2 @ ?e3 @ ?e4 @ ?e5 @ ?e6)"
  have r7: "?r7 = ?e1 @ ?e2 @ ?e3 @ ?e4 @ ?e5 @ ?e6 @ ?e7"
    using set_opt_case [of "js ''cursor''" "?e1 @ ?e2 @ ?e3 @ ?e4 @ ?e5 @ ?e6" Single "b_cursor b"]
    by (simp add: keys_opt_entry key_neqs image_Un)
  show ?thesis
    unfolding common_params_def Let_def common_entries_def
    by (simp only: r1 r2 r3 r4 r5 r6 r7)
qed

lemma keys_obj_set: "fst ` set (obj_set k v obj) = insert k (fst ` set obj)"
  by (induction k v obj rule: obj_set.induct) auto

lemma map_fst_obj_set:
  "map fst (obj_set k v obj) = (if k \<in> fst ` set obj then map fst obj else map fst obj @ [k])"
  by (induction k v obj rule: obj_set.induct) auto

lemma distinct_obj_set: "distinct (map fst obj) \<Longrightarrow> distinct (map fst (obj_set k v obj))"
  by (simp add: map_fst_obj_set)

lemma set_Object_entries: "set (Object_entries obj) = set obj"
  by (auto simp: Object_entries_def)

lemma distinct_Object_entries:
  "distinct (map fst obj) \<Longrightarrow> distinct (map fst (Object_entries obj))"
proof -
  assume d: "distinct (map fst obj)"
  then have d1: "distinct obj" and i: "inj_on fst (set obj)"
    by (simp_all add: distinct_map)
  have "distinct (Object_entries obj)"
    using d1 by (auto simp: Object_entries_def)
  then show ?thesis
    using i by (simp add: distinct_map set_Object_entries)
qed

lemma obj_get_Object_entries:
  "distinct (map fst obj) \<Longrightarrow> obj_get (Object_entries obj) k = obj_get obj k"
  unfolding obj_get_def
  using map_of_inject_set [of "Object_entries obj" obj] distinct_Object_entries [of obj]
  by (simp add: set_Object_entries)

lemma Object_entries_plain:
  "(\<And>k v. (k, v) \<in> set obj \<Longrightarrow> array_index k = None) \<Longrightarrow> Object_entries obj = obj"
proof -
  assume a: "\<And>k v. (k, v) \<in> set obj \<Longrightarrow> array_index k = None"
  then have "\<forall>x\<in>set obj. array_index (fst x) = None"
    by auto
  then show ?thesis
    by (simp add: Object_entries_def filter_empty_conv filter_id_conv case_prod_beta)
qed

lemma fold_obj_set_fresh:
  assumes "distinct (map fst es)" "inj g" "\<And>c v. (c, v) \<in> set es \<Longrightarrow> g c \<notin> fst ` set raw"
  shows "fold (\<lambda>(c, v) r. obj_set (g c) v r) es raw = raw @ map (\<lambda>(c, v). (g c, v)) es"
  using assms
proof (induction es arbitrary: raw)
  case Nil
  then show ?case by simp
next
  case (Cons e es)
  obtain c v where e: "e = (c, v)" by (cases e)
  have fresh: "g c \<notin> fst ` set raw"
    using Cons.prems(3) [of c v] e by simp
  have step: "obj_set (g c) v raw = raw @ [(g c, v)]"
    using fresh by (rule obj_set_new)
  have "\<And>c' v'. (c', v') \<in> set es \<Longrightarrow> g c' \<notin> fst ` set (raw @ [(g c, v)])"
  proof -
    fix c' v' assume m: "(c', v') \<in> set es"
    then have "c' \<noteq> c" using Cons.prems(1) e by (auto simp: image_iff)
    then have "g c' \<noteq> g c" using Cons.prems(2) by (auto dest: injD)
    moreover have "g c' \<notin> fst ` set raw" using Cons.prems(3) [of c' v'] m by simp
    ultimately show "g c' \<notin> fst ` set (raw @ [(g c, v)])" by auto
  qed
  then have "fold (\<lambda>(c, v) r. obj_set (g c) v r) es (raw @ [(g c, v)])
               = (raw @ [(g c, v)]) @ map (\<lambda>(c, v). (g c, v)) es"
    using Cons.IH [of "raw @ [(g c, v)]"] Cons.prems(1,2) by simp
  then show ?case
    by (simp add: e step)
qed

lemma filter_key_not_common:
  "js ''filter.'' @ c \<noteq> js ''page''" "js ''filter.'' @ c \<noteq> js ''limit''"
  "js ''filter.'' @ c \<noteq> js ''sortBy''" "js ''filter.'' @ c \<noteq> js ''search''"
  "js ''filter.'' @ c \<noteq> js ''searchBy''" "js ''filter.'' @ c \<noteq> js ''select''"
  "js ''filter.'' @ c \<noteq> js ''cursor''" "js ''filter.'' @ c \<noteq> js ''withDeleted''"
  by (simp_all add: js_def)

lemma filter_key_not_in_common: "js ''filter.'' @ c \<notin> fst ` set (common_entries b)"
  by (simp add: common_entries_def image_Un keys_opt_entry filter_key_not_common)

lemma filter_key_not_in_withDeleted: "js ''filter.'' @ c \<notin> fst ` set (withDeleted_entry b)"
  by (simp add: withDeleted_entry_def keys_opt_entry filter_key_not_common)

lemma withDeleted_not_in_common: "js ''withDeleted'' \<notin> fst ` set (common_entries b)"
  by (simp add: common_entries_def image_Un keys_opt_entry key_neqs)

lemma toParams_eq:
  assumes "distinct (map fst (b_filter b))"
  shows "toParams b = common_entries b @ withDeleted_entry b @ filter_entries (b_filter b)"
proof -
  let ?raw8 = "common_entries b @ withDeleted_entry b"
  have w: "(if b_withDeleted b = Some True
            then obj_set (js ''withDeleted'') (Single (js ''true'')) (common_entries b)
            else common_entries b) = ?raw8"
    using set_opt_if [of "js ''withDeleted''" "common_entries b" "b_withDeleted b = Some True"
                         "Single (js ''true'')"]
    by (simp add: withDeleted_not_in_common withDeleted_entry_def)
  have "filter_params (b_filter b) ?raw8 = ?raw8 @ filter_entries (b_filter b)"
    unfolding filter_params_def filter_entries_def
  proof (rule fold_obj_set_fresh)
    show "distinct (map fst (Object_entries (b_filter b)))"
      using assms by (rule distinct_Object_entries)
    show "inj ((@) (js ''filter.''))"
      by (simp add: inj_on_def)
    show "\<And>c v. (c, v) \<in> set (Object_entries (b_filter b)) \<Longrightarrow>
            js ''filter.'' @ c \<notin> fst ` set ?raw8"
      using filter_key_not_in_common filter_key_not_in_withDeleted by (simp add: image_Un)
  qed
  then show ?thesis
    by (simp add: toParams_def Let_def common_params_eq w)
qed

section \<open>Properties of the filter token codec\<close>

text \<open>
  C6. With the operator \<open>$null\<close>, no comparator and no suffix, \<open>buildFilterToken\<close>
  returns exactly the string \<open>$null\<close>, whatever value is supplied (none, a string, a
  number or an array): the function returns before it looks at the value.
\<close>

theorem buildFilterToken_null_ignores_value:
  "buildFilterToken \<lparr>comparator = None, suffix = None, operator = NULL, value = v\<rparr>
     = js ''$null''"
  by (simp add: buildFilterToken_def)

text \<open>
  C2. The specification asks for an \<open>InvalidFilterToken\<close> error when a non-null operator
  gets no value, and \<open>filter.spec.ts\<close> expects \<open>buildFilterToken({ operator: EQ })\<close> to
  throw. The function in \<open>filter.ts\<close> returns the token without its value segment
  instead: at this input the result is the string \<open>$eq\<close>.
\<close>

theorem buildFilterToken_eq_without_value:
  "buildFilterToken \<lparr>comparator = None, suffix = None, operator = EQ, value = None\<rparr>
     = js ''$eq''"
  by (simp add: buildFilterToken_def)

lemma eq_token: "eq v = js ''$eq:'' @ String v"
  by (cases v) (simp_all add: eq_def buildFilterToken_def SEP_def js_def)

section \<open>Properties of the builder\<close>

lemma obj_get_append:
  "obj_get (xs @ ys) k = (case obj_get xs k of Some v \<Rightarrow> Some v | None \<Rightarrow> obj_get ys k)"
  by (simp add: obj_get_def map_add_def split: option.splits)

lemma obj_get_not_key: "k \<notin> fst ` set obj \<Longrightarrow> obj_get obj k = None"
  by (simp add: obj_get_def map_of_eq_None_iff)

lemma obj_get_opt_entry: "obj_get (opt_entry k0 vo) k = (if k = k0 then vo else None)"
  by (cases vo) (simp_all add: opt_entry_def obj_get_def)

lemma obj_get_fold_filter_key:
  assumes "\<And>c. key \<noteq> js ''filter.'' @ c"
  shows "obj_get (fold (\<lambda>(column, v) r. obj_set (js ''filter.'' @ column) v r) es raw) key
           = obj_get raw key"
  using assms by (induction es arbitrary: raw) (auto simp: obj_get_obj_set)

lemma obj_get_filter_params_other:
  "(\<And>c. key \<noteq> js ''filter.'' @ c) \<Longrightarrow> obj_get (filter_params flt raw) key = obj_get raw key"
  unfolding filter_params_def by (rule obj_get_fold_filter_key)

lemma withDeleted_not_filter_key: "js ''withDeleted'' \<noteq> js ''filter.'' @ c"
  by (simp add: js_def)

text \<open>
  C3. For every builder state, the param map has the key \<open>withDeleted\<close>, with the value
  \<open>"true"\<close>, exactly when the flag is \<open>true\<close>; when the flag is unset or \<open>false\<close> the key
  is absent. This is \<open>toParams\<close> of the current builder.
\<close>

theorem toParams_withDeleted:
  "obj_get (toParams b) (js ''withDeleted'')
     = (if b_withDeleted b = Some True then Some (Single (js ''true'')) else None)"
  by (simp add: toParams_def Let_def obj_get_filter_params_other withDeleted_not_filter_key
        obj_get_obj_set common_params_eq obj_get_not_key withDeleted_not_in_common)

text \<open>
  The earlier \<open>toParams\<close> kept in \<open>src/lib/builder.ts\<close> differs at this point: after
  \<open>withDeleted(false)\<close> it writes \<open>withDeleted: "false"\<close>.
\<close>

lemma toParams_legacy_withDeleted_false:
  "obj_get (toParams_legacy (withDeleted False newBuilder)) (js ''withDeleted'')
     = Some (Single (js ''false''))"
  by (simp add: toParams_legacy_def Let_def obj_get_filter_params_other withDeleted_not_filter_key
        obj_get_obj_set withDeleted_def String_bool_def)

subsection \<open>Filter entries\<close>

lemma distinct_filter_apply_call:
  "distinct (map fst (b_filter b)) \<Longrightarrow> distinct (map fst (b_filter (apply_call c b)))"
  by (cases c)
     (simp_all add: page_def limit_def sortBy_def search_def searchBy_def select_def
        cursor_def withDeleted_def filter_by_def Let_def distinct_obj_set)

lemma distinct_filter_fold:
  "distinct (map fst (b_filter b)) \<Longrightarrow> distinct (map fst (b_filter (fold apply_call calls b)))"
  by (induction calls arbitrary: b) (simp_all add: distinct_filter_apply_call)

lemma distinct_filter_run: "distinct (map fst (b_filter (run calls newBuilder)))"
  unfolding run_def by (rule distinct_filter_fold) (simp add: newBuilder_def)

lemma obj_get_filter_entries:
  assumes "distinct (map fst flt)"
  shows "obj_get (filter_entries flt) (js ''filter.'' @ c) = obj_get flt c"
proof -
  have "map_of (map (\<lambda>(c, v). (js ''filter.'' @ c, v)) es) (js ''filter.'' @ c) = map_of es c"
    for es :: "pvalue jsobject"
    by (induction es) auto
  then show ?thesis
    using assms by (simp add: filter_entries_def obj_get_def obj_get_Object_entries [unfolded obj_get_def])
qed

lemma toParams_filter_key:
  assumes "distinct (map fst (b_filter b))"
  shows "obj_get (toParams b) (js ''filter.'' @ c) = obj_get (b_filter b) c"
  using assms
  by (simp add: toParams_eq obj_get_append obj_get_not_key filter_key_not_in_common
        filter_key_not_in_withDeleted obj_get_filter_entries)

lemma filter_by_entry:
  "obj_get (b_filter (filter_by column token b)) column
     = Some (if truthy (obj_get (b_filter b) column)
             then Multi (tokens_of (obj_get (b_filter b) column) @ as_array token)
             else if length (as_array token) = 1 then Single (as_array token ! 0)
             else Multi (as_array token))"
  by (cases "obj_get (b_filter b) column")
     (simp_all add: filter_by_def Let_def obj_get_obj_set)

lemma filter_by_other:
  "c \<noteq> column \<Longrightarrow> obj_get (b_filter (filter_by column token b)) c = obj_get (b_filter b) c"
  by (simp add: filter_by_def Let_def obj_get_obj_set)

lemma filter_by_tokens:
  assumes "obj_get (b_filter b) column \<noteq> Some (Single [])"
  shows "tokens_of (obj_get (b_filter (filter_by column token b)) column)
           = tokens_of (obj_get (b_filter b) column) @ as_array token"
proof (cases "obj_get (b_filter b) column")
  case None
  then show ?thesis
    by (cases token) (simp_all add: filter_by_entry, (cases "as_array token"; simp)?)
next
  case (Some e)
  with assms have "truthy (Some e)" by (cases e) simp_all
  with Some show ?thesis by (simp add: filter_by_entry)
qed

text \<open>
  C7 fails in the code on a column named like a member of \<open>Object.prototype\<close>. On a
  fresh builder \<open>filter('constructor', eq(A))\<close> reads the inherited constructor as the
  existing entry, finds it truthy, and assigns the two-element array of that function and
  the token, where the claim has the token alone; a second call appends to that array,
  so the entry \<open>filter.constructor\<close> of the param map never is the list of the tokens.
\<close>

theorem filter_keeps_inherited_member:
  "obj_get (b_filter newBuilder) (js ''constructor'') = None
   \<and> filter_assigns (js ''constructor'') (Single (eq A)) newBuilder
       = AnArray [Member (js ''constructor''), Token (eq A)]"
  by (simp add: filter_assigns_def obj_read_def newBuilder_def Object_prototype_keys_def)

text \<open>
  On every other column \<open>filter_by\<close> stores what \<open>filter\<close> assigns.
\<close>

lemma filter_assigns_stored:
  assumes "column \<notin> set Object_prototype_keys"
  shows "obj_get (b_filter (filter_by column token b)) column = Some v
           \<Longrightarrow> filter_assigns column token b = stored v"
proof -
  assume s: "obj_get (b_filter (filter_by column token b)) column = Some v"
  show ?thesis
  proof (cases "obj_get (b_filter b) column")
    case None
    then show ?thesis
      using s assms by (auto simp: filter_by_entry filter_assigns_def obj_read_def)
  next
    case (Some e)
    then show ?thesis
      using s by (cases e) (auto simp: filter_by_entry filter_assigns_def obj_read_def)
  qed
qed

text \<open>
  The test \<open>existing ? ... : ...\<close> also treats an entry that is the empty string as
  absent: the next call replaces it instead of appending to it.
\<close>

lemma filter_by_empty_entry_replaced:
  "tokens_of (obj_get (toParams (run [Filter (js ''name'') (Single []),
                                       Filter (js ''name'') (Single (js ''$eq:B''))] newBuilder))
                (js ''filter.name''))
     = [js ''$eq:B'']"
proof -
  have "js ''filter.name'' = js ''filter.'' @ js ''name''"
    by (simp add: js_def)
  then show ?thesis
    by (simp add: toParams_filter_key distinct_filter_run)
       (simp add: run_def filter_by_def Let_def newBuilder_def obj_get_def)
qed

text \<open>
  Away from those names the calls append. For every builder state reached through calls
  of the public mutators none of which filters on a column named like a member of
  \<open>Object.prototype\<close>, and every column that is not such a name: unless the entry stored
  for the column is the empty string, a call of \<open>filter\<close> on that column leaves the stored
  tokens in place and in order and puts its own token or tokens after them. In
  particular \<open>filter('name', eq(A))\<close> followed by \<open>filter('name', eq(B))\<close> on a fresh
  builder makes the entry \<open>filter.name\<close> of the param map the array of the two tokens.
\<close>

theorem filter_by_appends:
  assumes "list_all modelled_call calls"
    and "column \<notin> set Object_prototype_keys"
    and "obj_get (b_filter (run calls newBuilder)) column \<noteq> Some (Single [])"
  shows "tokens_of (obj_get (toParams (filter_by column token (run calls newBuilder)))
                      (js ''filter.'' @ column))
           = tokens_of (obj_get (toParams (run calls newBuilder)) (js ''filter.'' @ column))
             @ as_array token
         \<and> obj_get (toParams (run [Filter (js ''name'') (Single (eq A)),
                                    Filter (js ''name'') (Single (eq B))] newBuilder))
               (js ''filter.'' @ js ''name'')
             = Some (Multi [eq A, eq B])"
proof
  have d: "distinct (map fst (b_filter (run calls newBuilder)))"
    by (rule distinct_filter_run)
  then have d': "distinct (map fst (b_filter (filter_by column token (run calls newBuilder))))"
    by (simp add: filter_by_def Let_def distinct_obj_set)
  show "tokens_of (obj_get (toParams (filter_by column token (run calls newBuilder)))
                      (js ''filter.'' @ column))
           = tokens_of (obj_get (toParams (run calls newBuilder)) (js ''filter.'' @ column))
             @ as_array token"
    using assms(3) by (simp add: toParams_filter_key d d' filter_by_tokens)
next
  have ne: "eq A \<noteq> []"
    by (simp add: eq_token js_def)
  show "obj_get (toParams (run [Filter (js ''name'') (Single (eq A)),
                                Filter (js ''name'') (Single (eq B))] newBuilder))
          (js ''filter.'' @ js ''name'')
          = Some (Multi [eq A, eq B])"
    using ne
    by (simp add: toParams_filter_key distinct_filter_run)
       (simp add: run_def filter_by_def Let_def newBuilder_def obj_get_def)
qed

theorem filter_by_appends_witness:
  "list_all modelled_call [Filter (js ''courses.price'') (Single (js ''$gte:100''))]
   \<and> js ''courses.price'' \<notin> set Object_prototype_keys
   \<and> obj_get (b_filter (run [Filter (js ''courses.price'') (Single (js ''$gte:100''))] newBuilder))
        (js ''courses.price'') \<noteq> Some (Single [])
   \<and> tokens_of (obj_get (toParams (filter_by (js ''courses.price'')
                   (Multi [js ''$lte:200'', js ''$not:$null''])
                   (run [Filter (js ''courses.price'') (Single (js ''$gte:100''))] newBuilder)))
                 (js ''filter.'' @ js ''courses.price''))
       = [js ''$gte:100'', js ''$lte:200'', js ''$not:$null'']"
proof -
  have h1: "js ''courses.price'' \<notin> set Object_prototype_keys"
    by (simp add: Object_prototype_keys_def js_def)
  have h0: "list_all modelled_call [Filter (js ''courses.price'') (Single (js ''$gte:100''))]"
    using h1 by simp
  have e: "obj_get (b_filter (run [Filter (js ''courses.price'') (Single (js ''$gte:100''))]
             newBuilder)) (js ''courses.price'') = Some (Single (js ''$gte:100''))"
    by (simp add: run_def filter_by_def Let_def newBuilder_def obj_get_def)
  have h2: "obj_get (b_filter (run [Filter (js ''courses.price'') (Single (js ''$gte:100''))]
             newBuilder)) (js ''courses.price'') \<noteq> Some (Single [])"
    unfolding e by (simp add: js_def)
  have t: "tokens_of (obj_get (toParams
               (run [Filter (js ''courses.price'') (Single (js ''$gte:100''))] newBuilder))
             (js ''filter.'' @ js ''courses.price'')) = [js ''$gte:100'']"
    by (simp add: toParams_filter_key distinct_filter_run e)
  show ?thesis
    using h0 h1 h2 filter_by_appends [OF h0 h1 h2, of "Multi [js ''$lte:200'', js ''$not:$null'']"]
    by (simp add: t)
qed
section \<open>Properties of \<open>toQueryString\<close>\<close>

lemma unescaped_not_surrogate: "unescaped c \<Longrightarrow> \<not> is_trail c \<and> \<not> is_lead c"
  unfolding unescaped_def is_trail_def is_lead_def is_digit_def is_upper_def is_lower_def
  apply (elim disjE conjE)
     apply (simp_all add: word_le_nat_alt word_less_nat_alt)
  apply (elim disjE; simp)
  done

lemma lead_not_trail: "is_lead c \<Longrightarrow> \<not> is_trail c"
  by (simp add: is_trail_def is_lead_def word_le_nat_alt word_less_nat_alt)

lemma encodeURIComponent_well_formed:
  "well_formed s \<Longrightarrow> \<exists>r. encodeURIComponent s = Inr r"
proof (induction s rule: encodeURIComponent.induct)
  case 1
  then show ?case by simp
next
  case (2 c cs)
  show ?case
  proof (cases "unescaped c")
    case True
    then have "well_formed cs" using "2.prems" by (simp add: unescaped_not_surrogate)
    then show ?thesis using "2.IH"(1) True by auto
  next
    case False
    note nu = this
    show ?thesis
    proof (cases "is_trail c")
      case True
      then show ?thesis using "2.prems" by simp
    next
      case False
      note nt = this
      show ?thesis
      proof (cases "is_lead c")
        case True
        then obtain d ds where cs: "cs = d # ds" and t: "is_trail d" and w: "well_formed ds"
          using "2.prems" nt by (cases cs) auto
        then show ?thesis
          using "2.IH"(2) [OF nu nt True cs t] True nu nt by auto
      next
        case False
        then have "well_formed cs" using "2.prems" nt by simp
        then show ?thesis
          using "2.IH"(3) [OF nu nt False] nu nt False by auto
      qed
    qed
  qed
qed

lemma encodeURIComponent_ill_formed:
  "\<not> well_formed s \<Longrightarrow> encodeURIComponent s = Inl URIError"
proof (induction s rule: encodeURIComponent.induct)
  case 1
  then show ?case by simp
next
  case (2 c cs)
  show ?case
  proof (cases "unescaped c")
    case True
    then have "\<not> well_formed cs" using "2.prems" by (simp add: unescaped_not_surrogate)
    then show ?thesis using "2.IH"(1) True by simp
  next
    case False
    note nu = this
    show ?thesis
    proof (cases "is_trail c")
      case True
      then show ?thesis using nu by simp
    next
      case False
      note nt = this
      show ?thesis
      proof (cases "is_lead c")
        case True
        note ld = this
        show ?thesis
        proof (cases cs)
          case Nil
          then show ?thesis using nu nt ld by simp
        next
          case (Cons d ds)
          show ?thesis
          proof (cases "is_trail d")
            case True
            then have "\<not> well_formed ds" using "2.prems" nt ld Cons by simp
            then show ?thesis
              using "2.IH"(2) [OF nu nt ld Cons True] nu nt ld Cons True by simp
          next
            case False
            then show ?thesis using nu nt ld Cons by simp
          qed
        qed
      next
        case False
        then have "\<not> well_formed cs" using "2.prems" nt by simp
        then show ?thesis
          using "2.IH"(3) [OF nu nt False] nu nt False by simp
      qed
    qed
  qed
qed

lemma encodeURIComponent_eq:
  "encodeURIComponent s = (if well_formed s then Inr (encoded s) else Inl URIError)"
  using encodeURIComponent_well_formed [of s] encodeURIComponent_ill_formed [of s]
  by (auto simp: encoded_def)

lemma mk_pair_eq:
  "mk_pair key v = (if well_formed key \<and> well_formed v
                    then Inr (encoded key @ js ''='' @ encoded v) else Inl URIError)"
  by (simp add: mk_pair_def encodeURIComponent_eq)

lemma push_values_eq:
  "push_values key vs pairs =
     (if filter (\<lambda>x. x \<noteq> []) vs = []
         \<or> (well_formed key \<and> list_all well_formed (filter (\<lambda>x. x \<noteq> []) vs))
      then Inr (pairs @ map (\<lambda>x. encoded key @ js ''='' @ encoded x) (filter (\<lambda>x. x \<noteq> []) vs))
      else Inl URIError)"
  by (induction vs arbitrary: pairs) (auto simp: mk_pair_eq)

lemma push_entry_Multi:
  "push_entries ((key, Multi vs) # rest) pairs =
     (if encodable_entry (key, Multi vs)
      then push_entries rest (pairs @ entry_pairs (key, Multi vs)) else Inl URIError)"
  by (simp add: push_values_eq encodable_entry_def entry_pairs_def nonempty_values_def)

lemma push_entry_Single:
  "push_entries ((key, Single s) # rest) pairs =
     (if encodable_entry (key, Single s)
      then push_entries rest (pairs @ entry_pairs (key, Single s)) else Inl URIError)"
  by (simp add: mk_pair_eq encodable_entry_def entry_pairs_def nonempty_values_def)

lemma push_entries_eq:
  "push_entries es pairs =
     (if list_all encodable_entry es then Inr (pairs @ concat (map entry_pairs es))
      else Inl URIError)"
proof (induction es arbitrary: pairs)
  case Nil
  then show ?case by simp
next
  case (Cons e es)
  obtain k v where e: "e = (k, v)" by (cases e)
  show ?case
    by (cases v) (simp_all add: e push_entry_Multi push_entry_Single Cons.IH del: push_entries.simps)
qed

lemma list_all_Object_entries: "list_all P (Object_entries obj) = list_all P obj"
  by (simp add: list_all_iff set_Object_entries)

lemma toQueryString_eq:
  "toQueryString params =
     (if encodable params
      then Inr (if all_pairs params = [] then [] else js ''?'' @ join (js ''&'') (all_pairs params))
      else Inl URIError)"
  by (simp add: toQueryString_def push_entries_eq list_all_Object_entries encodable_def
        all_pairs_def)

text \<open>
  C8 as stated fails on a param map that holds an unpaired surrogate:
  \<open>encodeURIComponent\<close> throws a \<open>URIError\<close> and \<open>toQueryString\<close> emits nothing.
\<close>

theorem toQueryString_unpaired_surrogate:
  "toQueryString [(js ''search'', Single [0xD83D])] = Inl URIError"
  by (simp add: toQueryString_eq encodable_def encodable_entry_def nonempty_values_def
        is_trail_def is_lead_def)

text \<open>
  C8, amended. For every param map in which no key of an entry with a non-empty value,
  and no non-empty value, holds an unpaired surrogate, \<open>toQueryString\<close> emits one
  percent-encoded pair \<open>key=value\<close> per non-empty value (a scalar counts as a
  one-element array, an array gives one pair per element), joins the pairs with \<open>&\<close>,
  puts \<open>?\<close> in front when there is at least one pair and returns the empty string
  otherwise; on any other param map it throws a \<open>URIError\<close>. An empty builder serialises
  to the empty string.
\<close>

theorem toQueryString_pairs:
  "toQueryString params =
     (if encodable params
      then Inr (if all_pairs params = [] then [] else js ''?'' @ join (js ''&'') (all_pairs params))
      else Inl URIError)
   \<and> builder_toQueryString newBuilder = Inr []"
proof
  show "toQueryString params =
     (if encodable params
      then Inr (if all_pairs params = [] then [] else js ''?'' @ join (js ''&'') (all_pairs params))
      else Inl URIError)"
    by (rule toQueryString_eq)
next
  have "toParams newBuilder = []"
    by (simp add: toParams_def common_params_def newBuilder_def filter_params_def
          Object_entries_def)
  then show "builder_toQueryString newBuilder = Inr []"
    by (simp add: builder_toQueryString_def toQueryString_def Object_entries_def)
qed

subsection \<open>The query string of a builder\<close>

lemma filter_Object_entries: "filter Q (Object_entries obj) = Object_entries (filter Q obj)"
proof -
  have c: "filter Q (filter P obj) = filter P (filter Q obj)" for P :: "jsstring \<times> 'a \<Rightarrow> bool"
    by (simp add: conj_commute)
  show ?thesis
    by (simp add: Object_entries_def filter_sort c del: filter_filter)
qed

lemma concat_map_filter_nonempty:
  "concat (map h xs) = concat (map h (filter (\<lambda>x. h x \<noteq> []) xs))"
  by (induction xs) simp_all

lemma array_index_filter_key: "array_index (js ''filter.'' @ c) = None"
  by (simp add: array_index_def js_def is_digit_def)

lemma array_index_common_keys:
  "array_index (js ''page'') = None" "array_index (js ''limit'') = None"
  "array_index (js ''sortBy'') = None" "array_index (js ''search'') = None"
  "array_index (js ''searchBy'') = None" "array_index (js ''select'') = None"
  "array_index (js ''cursor'') = None" "array_index (js ''withDeleted'') = None"
  by (simp_all add: array_index_def js_def is_digit_def)

lemma in_opt_entry: "(k, v) \<in> set (opt_entry k0 vo) \<Longrightarrow> k = k0"
  by (cases vo) (simp_all add: opt_entry_def)

lemma array_index_common_entries: "(k, v) \<in> set (common_entries b) \<Longrightarrow> array_index k = None"
  by (auto simp: common_entries_def array_index_common_keys dest!: in_opt_entry)

lemma array_index_withDeleted_entry:
  "(k, v) \<in> set (withDeleted_entry b) \<Longrightarrow> array_index k = None"
  by (auto simp: withDeleted_entry_def array_index_common_keys dest!: in_opt_entry)

lemma array_index_filter_entries: "(k, v) \<in> set (filter_entries flt) \<Longrightarrow> array_index k = None"
  by (auto simp: filter_entries_def array_index_filter_key)

lemma Object_entries_toParams:
  assumes "distinct (map fst (b_filter b))"
  shows "Object_entries (toParams b) = toParams b"
proof (rule Object_entries_plain)
  fix k v assume "(k, v) \<in> set (toParams b)"
  then show "array_index k = None"
    using assms array_index_common_entries array_index_withDeleted_entry
      array_index_filter_entries
    by (auto simp: toParams_eq)
qed

lemma pairs_of_append: "pairs_of (xs @ ys) = pairs_of xs @ pairs_of ys"
  by (simp add: pairs_of_def)

lemma all_pairs_toParams:
  assumes "distinct (map fst (b_filter b))"
  shows "all_pairs (toParams b)
           = pairs_of (common_entries b) @ pairs_of (withDeleted_entry b)
             @ pairs_of (filter_entries (b_filter b))"
  using assms
  by (simp add: all_pairs_def Object_entries_toParams)
     (simp add: toParams_eq pairs_of_def)

lemma encodable_toParams:
  assumes "distinct (map fst (b_filter b))"
  shows "encodable (toParams b)
           = (list_all encodable_entry (common_entries b)
              \<and> list_all encodable_entry (withDeleted_entry b)
              \<and> list_all encodable_entry (filter_entries (b_filter b)))"
  using assms by (simp add: encodable_def toParams_eq)

lemma obj_get_None_iff: "obj_get obj k = None \<longleftrightarrow> k \<notin> fst ` set obj"
  by (simp add: obj_get_def map_of_eq_None_iff)

lemma filter_entries_drop_empty:
  assumes "c \<notin> fst ` set flt"
  shows "pairs_of (filter_entries (flt @ [(c, Multi [])])) = pairs_of (filter_entries flt)"
proof -
  let ?g = "\<lambda>(c, v). (js ''filter.'' @ c, v) :: jsstring \<times> pvalue"
  let ?h = "\<lambda>e. entry_pairs (?g e)"
  let ?Q = "\<lambda>x. ?h x \<noteq> []"
  have e: "?h (c, Multi []) = []"
    by (simp add: entry_pairs_def nonempty_values_def)
  have "filter ?Q (flt @ [(c, Multi [])]) = filter ?Q flt"
    using e by simp
  then have "filter ?Q (Object_entries (flt @ [(c, Multi [])])) = filter ?Q (Object_entries flt)"
    by (simp only: filter_Object_entries)
  then have "concat (map ?h (Object_entries (flt @ [(c, Multi [])])))
               = concat (map ?h (Object_entries flt))"
    using concat_map_filter_nonempty [of ?h "Object_entries (flt @ [(c, Multi [])])"]
      concat_map_filter_nonempty [of ?h "Object_entries flt"]
    by simp
  then show ?thesis
    by (simp add: pairs_of_def filter_entries_def comp_def)
qed

lemma list_all_filter_entries:
  "list_all P (filter_entries flt) = list_all (\<lambda>(c, v). P (js ''filter.'' @ c, v)) flt"
  by (simp add: filter_entries_def list_all_iff set_Object_entries case_prod_beta)

text \<open>
  C10 fails in the code on a column named like a member of \<open>Object.prototype\<close>. A fresh
  builder has no filter entry for \<open>constructor\<close>, yet \<open>filter('constructor', [])\<close> reads
  the inherited constructor as the existing entry and assigns the one-element array that
  holds this function, not the empty array: \<open>toParams\<close> then maps \<open>filter.constructor\<close> to
  a list of one element, and \<open>toQueryString\<close> emits a pair for it.
\<close>

theorem filter_empty_array_keeps_inherited_member:
  "obj_get (b_filter newBuilder) (js ''constructor'') = None
   \<and> filter_assigns (js ''constructor'') (Multi []) newBuilder
       = AnArray [Member (js ''constructor'')]"
  by (simp add: filter_assigns_def obj_read_def newBuilder_def Object_prototype_keys_def)

text \<open>
  Away from those names the claim holds. For every builder state reached through calls
  of the public mutators none of which filters on a column named like a member of
  \<open>Object.prototype\<close>, and every column \<open>c\<close> that is not such a name and has no filter
  entry, the call \<open>filter(c, [])\<close> stores the empty array: \<open>toParams\<close> then maps \<open>filter.c\<close>
  to an empty list, and \<open>toQueryString\<close> returns what it returned before the call, so no
  pair is emitted for that key.
\<close>

theorem filter_by_empty_array:
  assumes "list_all modelled_call calls"
    and "c \<notin> set Object_prototype_keys"
    and "obj_get (b_filter (run calls newBuilder)) c = None"
  shows "obj_get (toParams (filter_by c (Multi []) (run calls newBuilder))) (js ''filter.'' @ c)
           = Some (Multi [])
         \<and> entry_pairs (js ''filter.'' @ c, Multi []) = []
         \<and> builder_toQueryString (filter_by c (Multi []) (run calls newBuilder))
             = builder_toQueryString (run calls newBuilder)"
proof -
  let ?b = "run calls newBuilder"
  let ?b' = "filter_by c (Multi []) ?b"
  have d: "distinct (map fst (b_filter ?b))"
    by (rule distinct_filter_run)
  have fresh: "c \<notin> fst ` set (b_filter ?b)"
    using assms(3) by (simp add: obj_get_None_iff)
  have flt: "b_filter ?b' = b_filter ?b @ [(c, Multi [])]"
    using assms(3) fresh by (simp add: filter_by_def Let_def obj_set_new)
  have d': "distinct (map fst (b_filter ?b'))"
    using d fresh by (simp add: flt)
  have same: "common_entries ?b' = common_entries ?b" "withDeleted_entry ?b' = withDeleted_entry ?b"
    by (simp_all add: common_entries_def withDeleted_entry_def filter_by_def Let_def)
  have 1: "obj_get (toParams ?b') (js ''filter.'' @ c) = Some (Multi [])"
    using assms(3) by (simp add: toParams_filter_key d' filter_by_entry)
  have 2: "entry_pairs (js ''filter.'' @ c, Multi []) = []"
    by (simp add: entry_pairs_def nonempty_values_def)
  have p: "all_pairs (toParams ?b') = all_pairs (toParams ?b)"
    unfolding all_pairs_toParams [OF d] all_pairs_toParams [OF d']
    using fresh by (simp add: same flt filter_entries_drop_empty)
  have "encodable_entry (js ''filter.'' @ c, Multi [])"
    by (simp add: encodable_entry_def nonempty_values_def)
  then have e: "encodable (toParams ?b') = encodable (toParams ?b)"
    unfolding encodable_toParams [OF d] encodable_toParams [OF d']
    by (simp add: same flt list_all_filter_entries)
  have 3: "builder_toQueryString ?b' = builder_toQueryString ?b"
    by (simp add: builder_toQueryString_def toQueryString_eq p e)
  show ?thesis
    using 1 2 3 by simp
qed

theorem filter_by_empty_array_witness:
  "list_all modelled_call [Page 2, Filter (js ''name'') (Single (js ''$eq:A''))]
   \<and> js ''tags'' \<notin> set Object_prototype_keys
   \<and> obj_get (b_filter (run [Page 2, Filter (js ''name'') (Single (js ''$eq:A''))] newBuilder))
        (js ''tags'') = None
   \<and> obj_get (toParams (filter_by (js ''tags'') (Multi [])
                   (run [Page 2, Filter (js ''name'') (Single (js ''$eq:A''))] newBuilder)))
        (js ''filter.'' @ js ''tags'') = Some (Multi [])
   \<and> builder_toQueryString (filter_by (js ''tags'') (Multi [])
         (run [Page 2, Filter (js ''name'') (Single (js ''$eq:A''))] newBuilder))
       = builder_toQueryString (run [Page 2, Filter (js ''name'') (Single (js ''$eq:A''))] newBuilder)"
proof -
  have h0: "list_all modelled_call [Page 2, Filter (js ''name'') (Single (js ''$eq:A''))]"
    by (simp add: Object_prototype_keys_def js_def)
  have h1: "js ''tags'' \<notin> set Object_prototype_keys"
    by (simp add: Object_prototype_keys_def js_def)
  have h2: "obj_get (b_filter (run [Page 2, Filter (js ''name'') (Single (js ''$eq:A''))]
              newBuilder)) (js ''tags'') = None"
    by (simp add: run_def filter_by_def page_def Let_def newBuilder_def obj_get_def js_def)
  show ?thesis
    using h0 h1 h2 filter_by_empty_array [OF h0 h1 h2] by simp
qed
section \<open>Decoding what \<open>encodeURIComponent\<close> produced\<close>

lemma below_16_cases:
  "d < 16 \<Longrightarrow> d = 0 \<or> d = 1 \<or> d = 2 \<or> d = 3 \<or> d = 4 \<or> d = 5 \<or> d = 6 \<or> d = 7 \<or> d = 8
     \<or> d = 9 \<or> d = 10 \<or> d = 11 \<or> d = 12 \<or> d = 13 \<or> d = 14 \<or> d = (15::nat)"
  by presburger

lemma hex_val_hex_digit: "d < 16 \<Longrightarrow> hex_val (hex_digit d) = Some d"
  by (drule below_16_cases) (elim disjE; simp add: hex_val_def hex_digit_def is_digit_def)

lemma hex_digit_unescaped: "d < 16 \<Longrightarrow> unescaped (hex_digit d)"
  by (drule below_16_cases)
     (elim disjE; simp add: hex_digit_def unescaped_def is_digit_def is_upper_def)

lemma unescape_pct:
  assumes "b < 256"
  shows "unescape_items (pct b @ rest) = map_option ((#) (Oct b)) (unescape_items rest)"
proof -
  have "b div 16 < 16" "b mod 16 < 16" using assms by simp_all
  then show ?thesis
    by (simp add: pct_def hex_val_hex_digit)
qed

lemma unescape_pct_octets:
  assumes "\<forall>b \<in> set bs. b < 256"
  shows "unescape_items (pct_octets bs @ rest) = map_option ((@) (map Oct bs)) (unescape_items rest)"
  using assms
proof (induction bs)
  case Nil
  then show ?case by (simp add: pct_octets_def option.map_ident)
next
  case (Cons b bs)
  then have "unescape_items (pct_octets bs @ rest)
               = map_option ((@) (map Oct bs)) (unescape_items rest)"
    by simp
  then show ?case
    using Cons.prems unescape_pct [of b "pct_octets bs @ rest"]
    by (simp add: pct_octets_def option.map_comp comp_def)
qed

lemma unescaped_not_percent: "unescaped c \<Longrightarrow> c \<noteq> 0x25"
  by (auto simp: unescaped_def is_digit_def is_upper_def is_lower_def)

lemma unescape_unescaped:
  "unescaped c \<Longrightarrow> unescape_items (c # rest) = map_option ((#) (Lit c)) (unescape_items rest)"
  by (simp add: unescaped_not_percent)

lemma utf8_bytes: "cp < 0x110000 \<Longrightarrow> \<forall>b \<in> set (utf8 cp). b < 256"
  by (auto simp: utf8_def)

lemma split3: "(cp div 4096) * 4096 + ((cp div 64) mod 64) * 64 + cp mod 64 = (cp::nat)"
proof -
  let ?q = "cp div 64"
  have q: "cp div 4096 = ?q div 64"
    by (simp add: div_mult2_eq [symmetric])
  have "(?q div 64) * 64 + ?q mod 64 = ?q"
    by simp
  then have "(?q div 64) * 4096 + (?q mod 64) * 64 = 64 * ?q"
    by linarith
  moreover have "64 * ?q + cp mod 64 = cp"
    by simp
  ultimately show ?thesis
    unfolding q by linarith
qed

lemma split4:
  "(cp div 262144) * 262144 + ((cp div 4096) mod 64) * 4096 + ((cp div 64) mod 64) * 64
     + cp mod 64 = (cp::nat)"
proof -
  let ?r = "cp div 4096"
  have r: "cp div 262144 = ?r div 64"
    by (simp add: div_mult2_eq [symmetric])
  have "(?r div 64) * 64 + ?r mod 64 = ?r"
    by simp
  then have "(?r div 64) * 262144 + (?r mod 64) * 4096 = 4096 * ?r"
    by linarith
  moreover have "?r * 4096 + ((cp div 64) mod 64) * 64 + cp mod 64 = cp"
    by (rule split3)
  ultimately show ?thesis
    unfolding r by linarith
qed

lemma decode_utf8_1:
  assumes "cp < 0x80"
  shows "decode_items (map Oct (utf8 cp) @ rest) = map_option ((@) (utf16 cp)) (decode_items rest)"
proof -
  have "map_option ((@) [of_nat cp :: 16 word]) (decode_items rest)
          = map_option ((#) (of_nat cp)) (decode_items rest)"
    by (cases "decode_items rest") simp_all
  then show ?thesis
    using assms by (simp add: utf8_def utf16_def)
qed

lemma decode_utf8_2:
  assumes "0x80 \<le> cp" "cp < 0x800"
  shows "decode_items (map Oct (utf8 cp) @ rest) = map_option ((@) (utf16 cp)) (decode_items rest)"
proof -
  let ?b1 = "0xC0 + cp div 64"
  let ?b2 = "0x80 + cp mod 64"
  have r1: "\<not> ?b1 < 0x80" "\<not> ?b1 < 0xC0" "?b1 < 0xE0"
    using assms by simp_all
  have "(?b1 - 0xC0) * 64 + (?b2 - 0x80) = cp"
    by simp
  moreover have "is_cont ?b2"
    by (simp add: is_cont_def)
  ultimately have c: "utf8_cp2 ?b1 ?b2 = Some cp"
    using assms by (simp add: utf8_cp2_def Let_def)
  have u: "utf8 cp = [?b1, ?b2]"
    using assms by (simp add: utf8_def)
  show ?thesis
    unfolding u using r1 c by simp
qed

lemma decode_utf8_3:
  assumes "0x800 \<le> cp" "cp < 0x10000" "\<not> (0xD800 \<le> cp \<and> cp < 0xE000)"
  shows "decode_items (map Oct (utf8 cp) @ rest) = map_option ((@) (utf16 cp)) (decode_items rest)"
proof -
  let ?b1 = "0xE0 + cp div 4096"
  let ?b2 = "0x80 + (cp div 64) mod 64"
  let ?b3 = "0x80 + cp mod 64"
  have r1: "\<not> ?b1 < 0x80" "\<not> ?b1 < 0xC0" "\<not> ?b1 < 0xE0" "?b1 < 0xF0"
    using assms by simp_all
  have "(?b1 - 0xE0) * 4096 + (?b2 - 0x80) * 64 + (?b3 - 0x80) = cp"
    by (simp add: split3)
  moreover have "is_cont ?b2" "is_cont ?b3"
    by (simp_all add: is_cont_def)
  ultimately have c: "utf8_cp3 ?b1 ?b2 ?b3 = Some cp"
    using assms by (simp add: utf8_cp3_def Let_def)
  have u: "utf8 cp = [?b1, ?b2, ?b3]"
    using assms by (simp add: utf8_def)
  show ?thesis
    unfolding u using r1 c by simp
qed

lemma decode_utf8_4:
  assumes "0x10000 \<le> cp" "cp < 0x110000"
  shows "decode_items (map Oct (utf8 cp) @ rest) = map_option ((@) (utf16 cp)) (decode_items rest)"
proof -
  let ?b1 = "0xF0 + cp div 262144"
  let ?b2 = "0x80 + (cp div 4096) mod 64"
  let ?b3 = "0x80 + (cp div 64) mod 64"
  let ?b4 = "0x80 + cp mod 64"
  have r1: "\<not> ?b1 < 0x80" "\<not> ?b1 < 0xC0" "\<not> ?b1 < 0xE0" "\<not> ?b1 < 0xF0" "?b1 < 0xF8"
    using assms by simp_all
  have "(?b1 - 0xF0) * 262144 + (?b2 - 0x80) * 4096 + (?b3 - 0x80) * 64 + (?b4 - 0x80) = cp"
    by (simp add: split4)
  moreover have "is_cont ?b2" "is_cont ?b3" "is_cont ?b4"
    by (simp_all add: is_cont_def)
  ultimately have c: "utf8_cp4 ?b1 ?b2 ?b3 ?b4 = Some cp"
    using assms by (simp add: utf8_cp4_def Let_def)
  have u: "utf8 cp = [?b1, ?b2, ?b3, ?b4]"
    using assms by (simp add: utf8_def)
  show ?thesis
    unfolding u using r1 c by simp
qed

lemma decode_utf8:
  assumes "cp < 0x110000" "\<not> (0xD800 \<le> cp \<and> cp < 0xE000)"
  shows "decode_items (map Oct (utf8 cp) @ rest) = map_option ((@) (utf16 cp)) (decode_items rest)"
proof -
  consider "cp < 0x80" | "0x80 \<le> cp \<and> cp < 0x800" | "0x800 \<le> cp \<and> cp < 0x10000"
    | "0x10000 \<le> cp"
    by linarith
  then show ?thesis
    using assms decode_utf8_1 decode_utf8_2 decode_utf8_3 decode_utf8_4
    by cases auto
qed

lemma utf16_unit: "utf16 (unat (c :: 16 word)) = [c]"
proof -
  have "unat c < 0x10000"
    using unsigned_less [of c, where ?'a = nat] by simp
  then show ?thesis
    by (simp add: utf16_def)
qed

lemma unit_valid:
  assumes "\<not> is_lead c" "\<not> is_trail c"
  shows "unat c < 0x110000 \<and> \<not> (0xD800 \<le> unat c \<and> unat c < 0xE000)"
proof -
  have "unat c < 0x10000"
    using unsigned_less [of c, where ?'a = nat] by simp
  then show ?thesis
    using assms by (auto simp: is_lead_def is_trail_def word_le_nat_alt word_less_nat_alt)
qed

lemma pair_valid:
  assumes "is_lead c" "is_trail d"
  shows "0x10000 \<le> pair_cp c d \<and> pair_cp c d < 0x110000"
proof -
  have "0xD800 \<le> unat c" "unat c < 0xDC00" "0xDC00 \<le> unat d" "unat d < 0xE000"
    using assms by (simp_all add: is_lead_def is_trail_def word_le_nat_alt word_less_nat_alt)
  then show ?thesis
    unfolding pair_cp_def by linarith
qed

lemma utf16_pair:
  assumes "is_lead c" "is_trail d"
  shows "utf16 (pair_cp c d) = [c, d]"
proof -
  let ?x = "unat c - 0xD800"
  let ?y = "unat d - 0xDC00"
  have b: "0xD800 \<le> unat c" "unat c < 0xDC00" "0xDC00 \<le> unat d" "unat d < 0xE000"
    using assms by (simp_all add: is_lead_def is_trail_def word_le_nat_alt word_less_nat_alt)
  then have y: "?y < 0x400" by linarith
  have m: "pair_cp c d - 0x10000 = ?x * 0x400 + ?y"
    by (simp add: pair_cp_def)
  have dv: "(pair_cp c d - 0x10000) div 0x400 = ?x"
    unfolding m using y by simp
  have md: "(pair_cp c d - 0x10000) mod 0x400 = ?y"
    unfolding m using y by simp
  have "0xD800 + ?x = unat c" "0xDC00 + ?y = unat d"
    using b by simp_all
  then have "(of_nat (0xD800 + ?x) :: 16 word) = c" "(of_nat (0xDC00 + ?y) :: 16 word) = d"
    by simp_all
  moreover have "\<not> pair_cp c d < 0x10000"
    using pair_valid [OF assms] by simp
  ultimately show ?thesis
    by (simp add: utf16_def dv md del: of_nat_add)
qed

lemma decode_encode_items:
  "encodeURIComponent s = Inr r \<Longrightarrow>
     \<exists>its. unescape_items r = Some its \<and> decode_items its = Some s"
proof (induction s arbitrary: r rule: encodeURIComponent.induct)
  case 1
  then show ?case by simp
next
  case (2 c cs)
  show ?case
  proof (cases "unescaped c")
    case True
    then obtain r' where r': "encodeURIComponent cs = Inr r'" and r: "r = c # r'"
      using "2.prems" by (auto split: sum.splits)
    obtain its where "unescape_items r' = Some its" "decode_items its = Some cs"
      using "2.IH"(1) [OF True r'] by blast
    then have "unescape_items r = Some (Lit c # its) \<and> decode_items (Lit c # its) = Some (c # cs)"
      using True r by (simp add: unescape_unescaped del: unescape_items.simps)
    then show ?thesis by blast
  next
    case False
    note nu = this
    have nt: "\<not> is_trail c"
      using "2.prems" nu by (auto split: if_splits)
    show ?thesis
    proof (cases "is_lead c")
      case True
      note ld = this
      obtain d ds where cs: "cs = d # ds" and t: "is_trail d"
        using "2.prems" nu nt ld by (cases cs) (auto split: if_splits)
      obtain r' where r': "encodeURIComponent ds = Inr r'"
        and r: "r = pct_octets (utf8 (pair_cp c d)) @ r'"
        using "2.prems" nu nt ld cs t by (auto split: sum.splits)
      obtain its where i: "unescape_items r' = Some its" "decode_items its = Some ds"
        using "2.IH"(2) [OF nu nt ld cs t r'] by blast
      have v: "pair_cp c d < 0x110000" "\<not> (0xD800 \<le> pair_cp c d \<and> pair_cp c d < 0xE000)"
        using pair_valid [OF ld t] by simp_all
      have "unescape_items r = Some (map Oct (utf8 (pair_cp c d)) @ its)"
        using i(1) utf8_bytes [OF v(1)] by (simp add: r unescape_pct_octets)
      moreover have "decode_items (map Oct (utf8 (pair_cp c d)) @ its) = Some (c # cs)"
        using i(2) by (simp add: decode_utf8 [OF v] utf16_pair [OF ld t] cs)
      ultimately show ?thesis by blast
    next
      case False
      obtain r' where r': "encodeURIComponent cs = Inr r'"
        and r: "r = pct_octets (utf8 (unat c)) @ r'"
        using "2.prems" nu nt False by (auto split: sum.splits)
      obtain its where i: "unescape_items r' = Some its" "decode_items its = Some cs"
        using "2.IH"(3) [OF nu nt False r'] by blast
      have v: "unat c < 0x110000" "\<not> (0xD800 \<le> unat c \<and> unat c < 0xE000)"
        using unit_valid [OF False nt] by simp_all
      have "unescape_items r = Some (map Oct (utf8 (unat c)) @ its)"
        using i(1) utf8_bytes [OF v(1)] by (simp add: r unescape_pct_octets)
      moreover have "decode_items (map Oct (utf8 (unat c)) @ its) = Some (c # cs)"
        using i(2) by (simp add: decode_utf8 [OF v] utf16_unit)
      ultimately show ?thesis by blast
    qed
  qed
qed

lemma decodeURIComponent_encoded:
  assumes "well_formed s"
  shows "decodeURIComponent (encoded s) = Inr s"
proof -
  have "encodeURIComponent s = Inr (encoded s)"
    using assms by (simp add: encodeURIComponent_eq)
  then obtain its where "unescape_items (encoded s) = Some its" "decode_items its = Some s"
    using decode_encode_items by blast
  then show ?thesis
    by (simp add: decodeURIComponent_def)
qed

lemma pct_octets_chars:
  assumes "\<forall>b \<in> set bs. b < 256"
  shows "\<forall>x \<in> set (pct_octets bs). unescaped x \<or> x = 0x25"
proof -
  have "\<forall>x \<in> set (pct b). unescaped x \<or> x = 0x25" if "b < 256" for b
  proof -
    have "b div 16 < 16" "b mod 16 < 16" using that by simp_all
    then show ?thesis by (simp add: pct_def hex_digit_unescaped)
  qed
  then show ?thesis
    using assms by (auto simp: pct_octets_def)
qed

lemma encode_chars:
  "encodeURIComponent s = Inr r \<Longrightarrow> \<forall>x \<in> set r. unescaped x \<or> x = 0x25"
proof (induction s arbitrary: r rule: encodeURIComponent.induct)
  case 1
  then show ?case by simp
next
  case (2 c cs)
  show ?case
  proof (cases "unescaped c")
    case True
    then obtain r' where r': "encodeURIComponent cs = Inr r'" and r: "r = c # r'"
      using "2.prems" by (auto split: sum.splits)
    then show ?thesis
      using "2.IH"(1) [OF True r'] True by simp
  next
    case False
    note nu = this
    have nt: "\<not> is_trail c"
      using "2.prems" nu by (auto split: if_splits)
    show ?thesis
    proof (cases "is_lead c")
      case True
      note ld = this
      obtain d ds where cs: "cs = d # ds" and t: "is_trail d"
        using "2.prems" nu nt ld by (cases cs) (auto split: if_splits)
      obtain r' where r': "encodeURIComponent ds = Inr r'"
        and r: "r = pct_octets (utf8 (pair_cp c d)) @ r'"
        using "2.prems" nu nt ld cs t by (auto split: sum.splits)
      have "pair_cp c d < 0x110000"
        using pair_valid [OF ld t] by simp
      then have "\<forall>x \<in> set (pct_octets (utf8 (pair_cp c d))). unescaped x \<or> x = 0x25"
        using pct_octets_chars utf8_bytes by blast
      then show ?thesis
        using "2.IH"(2) [OF nu nt ld cs t r'] r by auto
    next
      case False
      obtain r' where r': "encodeURIComponent cs = Inr r'"
        and r: "r = pct_octets (utf8 (unat c)) @ r'"
        using "2.prems" nu nt False by (auto split: sum.splits)
      have "unat c < 0x110000"
        using unit_valid [OF False nt] by simp
      then have "\<forall>x \<in> set (pct_octets (utf8 (unat c))). unescaped x \<or> x = 0x25"
        using pct_octets_chars utf8_bytes by blast
      then show ?thesis
        using "2.IH"(3) [OF nu nt False r'] r by auto
    qed
  qed
qed

lemma encoded_chars:
  assumes "well_formed s"
  shows "\<forall>x \<in> set (encoded s). unescaped x \<or> x = 0x25"
  using assms encode_chars [of s "encoded s"] by (simp add: encodeURIComponent_eq)

lemma encoded_no_delimiters:
  assumes "well_formed s"
  shows "0x26 \<notin> set (encoded s)" "0x3D \<notin> set (encoded s)"
proof -
  have "\<not> unescaped 0x26" "\<not> unescaped 0x3D"
    by (simp_all add: unescaped_def is_digit_def is_upper_def is_lower_def)
  then show "0x26 \<notin> set (encoded s)" "0x3D \<notin> set (encoded s)"
    using encoded_chars [OF assms] by auto
qed

lemma encoded_nonempty:
  assumes "well_formed s" "s \<noteq> []"
  shows "encoded s \<noteq> []"
proof
  assume "encoded s = []"
  then have "decodeURIComponent [] = Inr s"
    using decodeURIComponent_encoded [OF assms(1)] by simp
  then show False
    using assms(2) by (simp add: decodeURIComponent_def)
qed

section \<open>\<open>toURLSearchParams\<close> against \<open>toQueryString\<close>\<close>

lemma entry_pairs_kv: "entry_pairs e = map encode_kv (kv_of e)"
  by (simp add: entry_pairs_def kv_of_def encode_kv_def comp_def)

lemma pairs_of_kv: "pairs_of es = map encode_kv (kv_pairs es)"
  by (induction es) (simp_all add: pairs_of_def kv_pairs_def entry_pairs_kv)

lemma encodable_wf_kv_of: "encodable_entry e \<Longrightarrow> list_all wf_kv (kv_of e)"
  by (auto simp: kv_of_def encodable_entry_def wf_kv_def list_all_iff)

lemma encodable_wf_kv: "list_all encodable_entry es \<Longrightarrow> list_all wf_kv (kv_pairs es)"
  by (induction es) (simp_all add: kv_pairs_def encodable_wf_kv_of)

lemma split_nonempty [simp]: "split sep s \<noteq> []"
  by (induction s) (auto split: list.splits)

lemma split_no_sep: "sep \<notin> set p \<Longrightarrow> split sep p = [p]"
  by (induction p) auto

lemma split_append_sep:
  "sep \<notin> set p \<Longrightarrow> split sep (p @ sep # rest) = p # split sep rest"
  by (induction p) auto

lemma split_join:
  assumes "ps \<noteq> []" "\<forall>p \<in> set ps. sep \<notin> set p"
  shows "split sep (join [sep] ps) = ps"
  using assms
proof (induction ps)
  case Nil
  then show ?case by simp
next
  case (Cons p ps)
  show ?case
  proof (cases ps)
    case Nil
    then show ?thesis using Cons.prems by (simp add: split_no_sep)
  next
    case (Cons q qs)
    then have "split sep (join [sep] ps) = ps"
      using Cons.IH Cons.prems by simp
    then show ?thesis
      using Cons Cons.prems by (simp add: split_append_sep)
  qed
qed

lemma join_split: "join [sep] (split sep s) = s"
proof (induction s)
  case Nil
  then show ?case by simp
next
  case (Cons c cs)
  obtain p ps where sp: "split sep cs = p # ps"
    by (cases "split sep cs") simp_all
  show ?case
  proof (cases "c = sep")
    case True
    then show ?thesis using Cons sp by simp
  next
    case False
    then show ?thesis using Cons sp by (cases ps) simp_all
  qed
qed

lemma indexOf_append:
  "c \<notin> set xs \<Longrightarrow> indexOf c (xs @ c # ys) = Some (length xs)"
  by (induction xs) (auto simp: indexOf_def)

lemma js_eq: "js ''='' = [0x3D]" "js ''&'' = [0x26]" "js ''?'' = [0x3F]" "js '','' = [0x2C]"
  "js '':'' = [0x3A]"
  by (simp_all add: js_def)

lemma encode_kv_split:
  assumes "wf_kv kv"
  shows "indexOf 0x3D (encode_kv kv) = Some (length (encoded (fst kv)))"
    and "take (length (encoded (fst kv))) (encode_kv kv) = encoded (fst kv)"
    and "drop (Suc (length (encoded (fst kv)))) (encode_kv kv) = encoded (snd kv)"
    and "encode_kv kv \<noteq> []"
    and "0x26 \<notin> set (encode_kv kv)"
proof -
  have w: "well_formed (fst kv)" "well_formed (snd kv)"
    using assms by (simp_all add: wf_kv_def)
  show "indexOf 0x3D (encode_kv kv) = Some (length (encoded (fst kv)))"
    using encoded_no_delimiters(2) [OF w(1)] by (simp add: encode_kv_def js_eq indexOf_append)
  show "take (length (encoded (fst kv))) (encode_kv kv) = encoded (fst kv)"
    by (simp add: encode_kv_def)
  show "drop (Suc (length (encoded (fst kv)))) (encode_kv kv) = encoded (snd kv)"
    by (simp add: encode_kv_def js_eq)
  show "encode_kv kv \<noteq> []"
    by (simp add: encode_kv_def js_eq)
  show "0x26 \<notin> set (encode_kv kv)"
    using encoded_no_delimiters(1) [OF w(1)] encoded_no_delimiters(1) [OF w(2)]
    by (simp add: encode_kv_def js_eq)
qed

lemma decode_pair_encode_kv:
  assumes "wf_kv kv"
  shows "decode_pair (encode_kv kv) = Inr kv"
proof -
  have w: "well_formed (fst kv)" "well_formed (snd kv)"
    using assms by (simp_all add: wf_kv_def)
  show ?thesis
    by (simp add: decode_pair_def encode_kv_split [OF assms] decodeURIComponent_encoded w)
qed

lemma decode_all_encode:
  "list_all wf_kv kvs \<Longrightarrow> decode_all (map encode_kv kvs) = Inr kvs"
  by (induction kvs) (simp_all add: decode_pair_encode_kv)

lemma join_nonempty:
  assumes "ps \<noteq> []" "\<forall>p \<in> set ps. p \<noteq> []"
  shows "join sep ps \<noteq> []"
proof (cases ps)
  case Nil
  then show ?thesis using assms(1) by simp
next
  case (Cons p qs)
  then show ?thesis using assms(2) by (cases qs) simp_all
qed

lemma decoded_pairs_query:
  assumes "list_all wf_kv kvs"
  shows "decoded_pairs (if map encode_kv kvs = [] then []
                        else js ''?'' @ join (js ''&'') (map encode_kv kvs)) = Inr kvs"
proof (cases "kvs = []")
  case True
  then show ?thesis by (simp add: decoded_pairs_def)
next
  case False
  let ?ps = "map encode_kv kvs"
  have ne: "?ps \<noteq> []" using False by simp
  have a: "\<forall>p \<in> set ?ps. 0x26 \<notin> set p" "\<forall>p \<in> set ?ps. p \<noteq> []"
    using assms encode_kv_split(4,5) by (auto simp: list_all_iff)
  have j: "join [0x26] ?ps \<noteq> []"
    using ne a(2) by (rule join_nonempty)
  have "split 0x26 (join [0x26] ?ps) = ?ps"
    using ne a(1) by (rule split_join)
  then show ?thesis
    using ne j assms by (simp add: decoded_pairs_def js_eq decode_all_encode)
qed


lemma to_USVString_well_formed: "well_formed s \<Longrightarrow> to_USVString s = s"
proof (induction s rule: to_USVString.induct)
  case 1
  then show ?case by simp
next
  case (2 c cs)
  have nt: "\<not> is_trail c" using "2.prems" by (auto split: if_splits)
  show ?case
  proof (cases "is_lead c")
    case True
    then obtain d ds where cs: "cs = d # ds" and t: "is_trail d" and w: "well_formed ds"
      using "2.prems" nt by (cases cs) auto
    then show ?thesis
      using "2.IH"(2) [OF nt True cs t] nt True by simp
  next
    case False
    then have "well_formed cs" using "2.prems" nt by simp
    then show ?thesis
      using "2.IH"(4) [OF nt False] nt False by simp
  qed
qed

lemma to_USVString_Nil_iff: "to_USVString s = [] \<longleftrightarrow> s = []"
  by (cases s) (auto split: list.splits)

lemma fold_usp_append:
  "fold (\<lambda>v u. usp_append key v u) vs usp = usp @ map (\<lambda>v. usv_kv (key, v)) vs"
  by (induction vs arbitrary: usp) (simp_all add: usp_append_def usv_kv_def)

lemma append_entries_eq: "append_entries es usp = usp @ map usv_kv (all_kv es)"
proof (induction es arbitrary: usp)
  case Nil
  then show ?case by (simp add: all_kv_def)
next
  case (Cons e es)
  obtain k v where e: "e = (k, v)" by (cases e)
  show ?case
    by (cases v) (simp_all add: e Cons.IH fold_usp_append all_kv_def usp_append_def usv_kv_def comp_def)
qed

lemma toURLSearchParams_eq:
  "toURLSearchParams b = map usv_kv (all_kv (Object_entries (toParams b)))"
  by (simp add: toURLSearchParams_def append_entries_eq)

lemma filter_usv_entry:
  assumes "encodable_entry e"
  shows "filter (\<lambda>kv. snd kv \<noteq> []) (map usv_kv (map (Pair (fst e)) (as_array (snd e)))) = kv_of e"
proof (cases "nonempty_values (snd e) = []")
  case True
  then have "\<forall>x \<in> set (as_array (snd e)). x = []"
    by (auto simp: nonempty_values_def filter_empty_conv)
  then have "filter (\<lambda>kv. snd kv \<noteq> []) (map usv_kv (map (Pair (fst e)) (as_array (snd e)))) = []"
    by (auto simp: filter_empty_conv usv_kv_def)
  then show ?thesis
    using True by (simp add: kv_of_def)
next
  case False
  then have wk: "well_formed (fst e)" and wv: "\<forall>x \<in> set (as_array (snd e)). x \<noteq> [] \<longrightarrow> well_formed x"
    using assms by (auto simp: encodable_entry_def nonempty_values_def list_all_iff)
  have "filter (\<lambda>kv. snd kv \<noteq> []) (map usv_kv (map (Pair (fst e)) xs))
          = map (Pair (fst e)) (filter (\<lambda>x. x \<noteq> []) xs)"
    if "\<forall>x \<in> set xs. x \<noteq> [] \<longrightarrow> well_formed x" for xs
    using that wk
    by (induction xs) (auto simp: usv_kv_def to_USVString_well_formed)
  then show ?thesis
    using wv by (simp add: kv_of_def nonempty_values_def)
qed

lemma filter_usv_all:
  "list_all encodable_entry es \<Longrightarrow>
     filter (\<lambda>kv. snd kv \<noteq> []) (map usv_kv (all_kv es)) = kv_pairs es"
proof (induction es)
  case Nil
  then show ?case by (simp add: all_kv_def kv_pairs_def)
next
  case (Cons e es)
  then have "filter (\<lambda>kv. snd kv \<noteq> []) (map usv_kv (all_kv es)) = kv_pairs es"
    by simp
  moreover have "filter (\<lambda>kv. snd kv \<noteq> []) (map usv_kv (map (Pair (fst e)) (as_array (snd e))))
                   = kv_of e"
    using Cons.prems by (simp add: filter_usv_entry del: map_map)
  ultimately show ?case
    by (simp add: all_kv_def kv_pairs_def del: map_map)
qed

text \<open>
  C9 as stated fails when a value is the empty string: \<open>toURLSearchParams\<close> appends
  the pair, \<open>toQueryString\<close> leaves it out.
\<close>

theorem toURLSearchParams_keeps_empty_value:
  "toURLSearchParams (run [Page 1, Cursor []] newBuilder)
     = [(js ''page'', js ''1''), (js ''cursor'', [])]
   \<and> builder_toQueryString (run [Page 1, Cursor []] newBuilder) = Inr (js ''?page=1'')
   \<and> decoded_pairs (js ''?page=1'') = Inr [(js ''page'', js ''1'')]"
proof -
  let ?b = "run [Page 1, Cursor []] newBuilder"
  have d: "distinct (map fst (b_filter ?b))"
    by (rule distinct_filter_run)
  have s1: "String_int 1 = js ''1''"
    by (simp add: String_int_def digits.simps digit_char_def js_def)
  have p: "toParams ?b = [(js ''page'', Single (js ''1'')), (js ''cursor'', Single [])]"
    by (simp add: toParams_eq [OF d])
       (simp add: common_entries_def withDeleted_entry_def filter_entries_def opt_entry_def
          run_def page_def cursor_def newBuilder_def Object_entries_def s1)
  have 1: "toURLSearchParams ?b = [(js ''page'', js ''1''), (js ''cursor'', [])]"
    by (simp only: toURLSearchParams_eq Object_entries_toParams [OF d])
       (simp add: p all_kv_def usv_kv_def js_def is_trail_def is_lead_def)
  have k: "wf_kv (js ''page'', js ''1'')"
    by (simp add: wf_kv_def js_def is_trail_def is_lead_def)
  have e: "encode_kv (js ''page'', js ''1'') = js ''page=1''"
    by (simp add: encode_kv_def encoded_def js_def unescaped_def is_digit_def is_lower_def
          is_upper_def)
  have 2: "builder_toQueryString ?b = Inr (js ''?page=1'')"
    using k e
    by (simp only: builder_toQueryString_def toQueryString_eq encodable_def all_pairs_def
          Object_entries_toParams [OF d])
       (simp add: p encodable_entry_def nonempty_values_def entry_pairs_kv kv_of_def wf_kv_def,
        simp add: js_def)
  have 3: "decoded_pairs (js ''?page=1'') = Inr [(js ''page'', js ''1'')]"
    using decoded_pairs_query [of "[(js ''page'', js ''1'')]"] k e
    by (simp add: js_def)
  show ?thesis
    using 1 2 3 by simp
qed

text \<open>
  C9, amended. For every builder state reached through the public mutators whose param
  map can be serialised (no key of an entry with a non-empty value and no non-empty value
  holds an unpaired surrogate), \<open>toQueryString\<close> returns a string whose percent-decoded
  pairs are, in the same order and with the same expansion of multi-valued entries, the
  pairs of \<open>toURLSearchParams\<close> that have a non-empty value. The pairs with an empty
  value appear in \<open>toURLSearchParams\<close> only.
\<close>

theorem toURLSearchParams_matches_query_string:
  assumes "encodable (toParams (run calls newBuilder))"
  shows "case builder_toQueryString (run calls newBuilder) of
           Inl e \<Rightarrow> False
         | Inr q \<Rightarrow>
             decoded_pairs q
               = Inr (filter (\<lambda>kv. snd kv \<noteq> []) (toURLSearchParams (run calls newBuilder)))"
proof -
  let ?b = "run calls newBuilder"
  let ?es = "Object_entries (toParams ?b)"
  have en: "list_all encodable_entry ?es"
    using assms by (simp add: encodable_def list_all_Object_entries)
  have w: "list_all wf_kv (kv_pairs ?es)"
    using en by (rule encodable_wf_kv)
  have a: "all_pairs (toParams ?b) = map encode_kv (kv_pairs ?es)"
    by (simp add: all_pairs_def pairs_of_kv [unfolded pairs_of_def])
  have q: "builder_toQueryString ?b
             = Inr (if map encode_kv (kv_pairs ?es) = [] then []
                    else js ''?'' @ join (js ''&'') (map encode_kv (kv_pairs ?es)))"
    using assms by (simp add: builder_toQueryString_def toQueryString_eq a)
  have "filter (\<lambda>kv. snd kv \<noteq> []) (toURLSearchParams ?b) = kv_pairs ?es"
    using en by (simp add: toURLSearchParams_eq filter_usv_all)
  then show ?thesis
    unfolding q using decoded_pairs_query [OF w] by simp
qed

theorem toURLSearchParams_matches_query_string_witness:
  "encodable (toParams (run [Page 1, Cursor []] newBuilder))
   \<and> (case builder_toQueryString (run [Page 1, Cursor []] newBuilder) of
         Inl e \<Rightarrow> False
       | Inr q \<Rightarrow> decoded_pairs q = Inr [(js ''page'', js ''1'')])"
proof -
  let ?b = "run [Page 1, Cursor []] newBuilder"
  have d: "distinct (map fst (b_filter ?b))"
    by (rule distinct_filter_run)
  have s1: "String_int 1 = js ''1''"
    by (simp add: String_int_def digits.simps digit_char_def js_def)
  have p: "toParams ?b = [(js ''page'', Single (js ''1'')), (js ''cursor'', Single [])]"
    by (simp add: toParams_eq [OF d])
       (simp add: common_entries_def withDeleted_entry_def filter_entries_def opt_entry_def
          run_def page_def cursor_def newBuilder_def Object_entries_def s1)
  have h: "encodable (toParams ?b)"
    unfolding p
    by (simp add: encodable_def encodable_entry_def nonempty_values_def js_def is_trail_def
          is_lead_def)
  have u: "filter (\<lambda>kv. snd kv \<noteq> []) (toURLSearchParams ?b) = [(js ''page'', js ''1'')]"
    by (simp only: toURLSearchParams_eq Object_entries_toParams [OF d])
       (simp add: p all_kv_def usv_kv_def js_def is_trail_def is_lead_def)
  show ?thesis
    using h toURLSearchParams_matches_query_string [OF h] by (simp add: u split: sum.splits)
qed

section \<open>Properties of \<open>fromQueryString\<close>\<close>

lemma take7_not_filter:
  "take 7 (js ''page'') \<noteq> js ''filter.''" "take 7 (js ''limit'') \<noteq> js ''filter.''"
  "take 7 (js ''sortBy'') \<noteq> js ''filter.''" "take 7 (js ''search'') \<noteq> js ''filter.''"
  "take 7 (js ''searchBy'') \<noteq> js ''filter.''" "take 7 (js ''select'') \<noteq> js ''filter.''"
  "take 7 (js ''cursor'') \<noteq> js ''filter.''" "take 7 (js ''withDeleted'') \<noteq> js ''filter.''"
  by (simp_all add: js_def)

lemma indexOf_Nil [simp]: "indexOf c [] = None"
  by (simp add: indexOf_def)

lemma dispatch_unknown: "\<not> known_key key \<Longrightarrow> dispatch key val st = Inr st"
  by (simp add: dispatch_def known_key_def)

lemma dispatch_page_NaN: "parseInt val = None \<Longrightarrow> dispatch (js ''page'') val st = Inr st"
  by (simp add: dispatch_def)

lemma dispatch_limit_NaN: "parseInt val = None \<Longrightarrow> dispatch (js ''limit'') val st = Inr st"
  by (simp add: dispatch_def key_neqs)

lemma dispatch_sortBy_no_colon:
  "lastIndexOf 0x3A val = None \<Longrightarrow> dispatch (js ''sortBy'') val st = Inr st"
  by (simp add: dispatch_def key_neqs)

lemma skipped_parse_pair:
  assumes "skipped p"
  shows "parse_pair p st = Inr st"
proof (cases "indexOf 0x3D p")
  case None
  then show ?thesis by (simp add: parse_pair_def)
next
  case (Some i)
  then obtain key val where k: "decodeURIComponent (take i p) = Inr key"
    and v: "decodeURIComponent (drop (i + 1) p) = Inr val"
    using assms by (auto simp: skipped_def split: sum.splits)
  have d: "parse_pair p st = dispatch key val st"
    using Some k v by (auto simp: parse_pair_def)
  have s: "if key = js ''page'' \<or> key = js ''limit'' then parseInt val = None
           else if key = js ''sortBy'' then lastIndexOf 0x3A val = None
           else \<not> known_key key"
    using assms Some k v by (simp add: skipped_def)
  show ?thesis
  proof (cases "key = js ''page''")
    case True
    then show ?thesis using s d by (simp add: dispatch_page_NaN)
  next
    case False
    note np = this
    show ?thesis
    proof (cases "key = js ''limit''")
      case True
      then show ?thesis using s d by (simp add: dispatch_limit_NaN)
    next
      case False
      note nl = this
      show ?thesis
      proof (cases "key = js ''sortBy''")
        case True
        then show ?thesis using s d np nl by (simp add: dispatch_sortBy_no_colon)
      next
        case False
        then show ?thesis using s d np nl by (simp add: dispatch_unknown)
      qed
    qed
  qed
qed

lemma parse_pairs_skip:
  "parse_pairs (filter (\<lambda>p. \<not> skipped p) ps) st = parse_pairs ps st"
  by (induction ps arbitrary: st) (simp_all add: skipped_parse_pair cong: sum.case_cong)

lemma plain_map_set:
  "plain_map (st\<lparr>filterMap := obj_set k v (filterMap st)\<rparr>)
     = (k \<notin> set Object_prototype_keys \<and> plain_map st)"
  by (auto simp: plain_map_def keys_obj_set)

lemma plain_map_other [simp]:
  "plain_map (st\<lparr>builder := b\<rparr>) = plain_map st"
  "plain_map (st\<lparr>searchByValues := s\<rparr>) = plain_map st"
  by (simp_all add: plain_map_def)

lemma plain_map_key: "plain_map st \<Longrightarrow> obj_get (filterMap st) k = Some v \<Longrightarrow> k \<notin> set Object_prototype_keys"
  by (auto simp: plain_map_def obj_get_def dest!: map_of_SomeD)

lemma dispatch_filter:
  assumes "take 7 key = js ''filter.''"
  shows "dispatch key val st =
     (case obj_get (filterMap st) (drop 7 key) of
             Some vs \<Rightarrow> Inr (st\<lparr>filterMap := obj_set (drop 7 key) (vs @ [val]) (filterMap st)\<rparr>)
           | None \<Rightarrow>
               if drop 7 key \<in> set Object_prototype_keys then Inl TypeError
               else Inr (st\<lparr>filterMap := obj_set (drop 7 key) [val] (filterMap st)\<rparr>))"
proof -
  have "key \<noteq> js ''page''" "key \<noteq> js ''limit''" "key \<noteq> js ''sortBy''" "key \<noteq> js ''search''"
    "key \<noteq> js ''searchBy''" "key \<noteq> js ''select''" "key \<noteq> js ''cursor''"
    "key \<noteq> js ''withDeleted''"
    using assms take7_not_filter by auto
  then show ?thesis
    using assms by (simp add: dispatch_def Let_def)
qed

lemma dispatch_not_filter:
  assumes "take 7 key \<noteq> js ''filter.''"
  shows "\<exists>st'. dispatch key val st = Inr st' \<and> filterMap st' = filterMap st"
  using assms by (simp add: dispatch_def split: option.splits)

lemma plain_map_cong: "filterMap st' = filterMap st \<Longrightarrow> plain_map st' = plain_map st"
  by (simp add: plain_map_def)

lemma dispatch_returns:
  assumes "plain_map st"
  shows "returns (dispatch key val st)
           = (\<not> (known_key key \<and> take 7 key = js ''filter.''
                 \<and> drop 7 key \<in> set Object_prototype_keys))"
proof (cases "take 7 key = js ''filter.''")
  case True
  then have kk: "known_key key" by (simp add: known_key_def)
  show ?thesis
  proof (cases "obj_get (filterMap st) (drop 7 key)")
    case None
    then show ?thesis using True kk by (simp add: dispatch_filter returns_def)
  next
    case (Some vs)
    then have "drop 7 key \<notin> set Object_prototype_keys"
      using assms by (rule plain_map_key [rotated])
    then show ?thesis using True Some by (simp add: dispatch_filter returns_def)
  qed
next
  case False
  then obtain st'' where "dispatch key val st = Inr st''"
    using dispatch_not_filter [OF False, of val st] by blast
  then show ?thesis
    using False by (simp add: returns_def)
qed

lemma dispatch_plain:
  assumes "plain_map st" "dispatch key val st = Inr st'"
  shows "plain_map st'"
proof (cases "take 7 key = js ''filter.''")
  case True
  show ?thesis
  proof (cases "obj_get (filterMap st) (drop 7 key)")
    case None
    then show ?thesis
      using True assms by (auto simp: dispatch_filter plain_map_set split: if_splits)
  next
    case (Some vs)
    then have "drop 7 key \<notin> set Object_prototype_keys"
      using assms(1) by (rule plain_map_key [rotated])
    then show ?thesis
      using True Some assms by (auto simp: dispatch_filter plain_map_set)
  qed
next
  case False
  then obtain st'' where "dispatch key val st = Inr st''" and f: "filterMap st'' = filterMap st"
    using dispatch_not_filter [OF False, of val st] by blast
  then have "st'' = st'" using assms(2) by simp
  then show ?thesis
    using f assms(1) plain_map_cong by blast
qed

lemma parse_pair_returns:
  assumes "plain_map st"
  shows "returns (parse_pair p st) = acceptable p"
proof (cases "indexOf 0x3D p")
  case None
  then show ?thesis
    by (simp add: parse_pair_def acceptable_def returns_def)
next
  case (Some i)
  then have ne: "p \<noteq> []" by (auto simp: indexOf_def)
  show ?thesis
  proof (cases "decodeURIComponent (take i p)")
    case (Inl e)
    then show ?thesis using Some ne by (simp add: parse_pair_def acceptable_def returns_def)
  next
    case (Inr key)
    note k = this
    show ?thesis
    proof (cases "decodeURIComponent (drop (i + 1) p)")
      case (Inl e)
      then show ?thesis using Some ne k by (simp add: parse_pair_def acceptable_def returns_def)
    next
      case (Inr val)
      have "returns (parse_pair p st) = returns (dispatch key val st)"
        using Some ne k Inr by (simp add: parse_pair_def)
      also have "\<dots> = acceptable p"
        using Some k Inr by (simp add: dispatch_returns [OF assms] acceptable_def)
      finally show ?thesis .
    qed
  qed
qed

lemma parse_pair_plain:
  assumes "plain_map st" "parse_pair p st = Inr st'"
  shows "plain_map st'"
  using assms dispatch_plain
  by (auto simp: parse_pair_def split: if_splits option.splits sum.splits)

lemma parse_pairs_returns:
  "plain_map st \<Longrightarrow> returns (parse_pairs ps st) = list_all acceptable ps"
proof (induction ps arbitrary: st)
  case Nil
  then show ?case by (simp add: returns_def)
next
  case (Cons p ps)
  show ?case
  proof (cases "parse_pair p st")
    case (Inl e)
    then have "\<not> acceptable p"
      using parse_pair_returns [OF Cons.prems, of p] by (simp add: returns_def)
    then show ?thesis using Inl by (simp add: returns_def)
  next
    case (Inr st')
    then have "acceptable p"
      using parse_pair_returns [OF Cons.prems, of p] by (simp add: returns_def)
    moreover have "plain_map st'"
      using Cons.prems Inr by (rule parse_pair_plain)
    ultimately show ?thesis
      using Inr Cons.IH [of st'] by simp
  qed
qed

lemma plain_initial: "plain_map initial_state"
  by (simp add: plain_map_def initial_state_def)

lemma finish_initial: "finish initial_state = newBuilder"
  by (simp add: finish_def initial_state_def Object_entries_def)

lemma fromQueryString_fragments:
  "fromQueryString qs =
     (case parse_pairs (fragments qs) initial_state of
        Inl e \<Rightarrow> Inl e
      | Inr st \<Rightarrow> Inr (finish st))"
proof (cases "(if qs \<noteq> [] \<and> hd qs = 0x3F then tl qs else qs) = []")
  case True
  then have "fragments qs = [[]]"
    by (simp add: fragments_def)
  then show ?thesis
    using True
    by (simp add: fromQueryString_def Let_def parse_pair_def finish_initial)
next
  case False
  then show ?thesis
    by (simp add: fromQueryString_def Let_def fragments_def initial_state_def)
qed



text \<open>
  C4 fails in the code on a malformed percent-encoding. The parser passes over fragments
  without \<open>=\<close>, unknown keys and numbers it cannot read, but it calls
  \<open>decodeURIComponent\<close> on the key and the value of every fragment with \<open>=\<close> before it
  looks at the key; on \<open>?page=2&search=100%\<close> that call throws a \<open>URIError\<close>, nothing
  catches it, and no builder is returned, where the claim has the fragment skipped and
  \<open>page\<close> applied.
\<close>

theorem fromQueryString_malformed_escape:
  "fromQueryString (js ''?page=2&search=100%'') = Inl URIError"
  by (simp add: fromQueryString_fragments fragments_def js_def initial_state_def parse_pair_def
        indexOf_def decodeURIComponent_def hex_val_def is_digit_def dispatch_def parseInt_def
        is_whitespace_def dec_value_def page_def)

text \<open>
  The extent of the failure. \<open>fromQueryString\<close> returns a builder exactly when every
  fragment is acceptable: it has no \<open>=\<close>, or its key and its value are valid
  percent-encodings and it does not name a filter column that is a property name of
  \<open>Object.prototype\<close> (where \<open>filterMap[col].push\<close> is not a function). Whether it returns
  or throws, the fragments that are empty, have no \<open>=\<close>, carry an unrecognised key, a
  \<open>page\<close> or \<open>limit\<close> value without a leading integer or a \<open>sortBy\<close> value without a
  colon are passed over: the result is that of parsing the remaining fragments.
\<close>

lemma fromQueryString_returns_iff:
  "returns (fromQueryString qs) = list_all acceptable (fragments qs)
   \<and> fromQueryString qs =
       (case parse_pairs (filter (\<lambda>p. \<not> skipped p) (fragments qs)) initial_state of
          Inl e \<Rightarrow> Inl e
        | Inr st \<Rightarrow> Inr (finish st))"
proof
  have "returns (fromQueryString qs) = returns (parse_pairs (fragments qs) initial_state)"
    by (simp add: fromQueryString_fragments returns_def split: sum.splits)
  then show "returns (fromQueryString qs) = list_all acceptable (fragments qs)"
    by (simp add: parse_pairs_returns plain_initial)
next
  show "fromQueryString qs =
       (case parse_pairs (filter (\<lambda>p. \<not> skipped p) (fragments qs)) initial_state of
          Inl e \<Rightarrow> Inl e
        | Inr st \<Rightarrow> Inr (finish st))"
    by (simp add: fromQueryString_fragments parse_pairs_skip)
qed

section \<open>The round trip through the query string\<close>

subsection \<open>Numbers and sort rules\<close>

lemma below_10_cases:
  "d < 10 \<Longrightarrow> d = 0 \<or> d = 1 \<or> d = 2 \<or> d = 3 \<or> d = 4 \<or> d = 5 \<or> d = 6 \<or> d = 7 \<or> d = 8
     \<or> d = (9::nat)"
  by presburger

lemma digit_char_props:
  assumes "d < 10"
  shows "is_digit (digit_char d)" and "unat (digit_char d) - 48 = d"
    and "\<not> is_whitespace (digit_char d)" and "digit_char d \<noteq> 0x2B" and "digit_char d \<noteq> 0x2D"
  using below_10_cases [OF assms]
  by (elim disjE; simp add: digit_char_def is_digit_def is_whitespace_def)+

lemma digits_nonempty: "digits n \<noteq> []"
  by (subst digits.simps) simp

lemma digits_all: "\<forall>c \<in> set (digits n). is_digit c"
proof (induction n rule: digits.induct)
  case (1 n)
  show ?case
  proof (cases "n < 10")
    case True
    then show ?thesis by (subst digits.simps) (simp add: digit_char_props)
  next
    case False
    have "n mod 10 < 10" by simp
    then show ?thesis
      using False 1 by (subst digits.simps) (simp add: digit_char_props)
  qed
qed

lemma dec_value_snoc: "dec_value (xs @ [c]) = 10 * dec_value xs + (unat c - 48)"
  by (simp add: dec_value_def)

lemma dec_value_digits: "dec_value (digits n) = n"
proof (induction n rule: digits.induct)
  case (1 n)
  show ?case
  proof (cases "n < 10")
    case True
    then show ?thesis
      by (subst digits.simps) (simp add: dec_value_def digit_char_props)
  next
    case False
    have "n mod 10 < 10" by simp
    then show ?thesis
      using False 1 by (subst digits.simps) (simp add: dec_value_snoc digit_char_props)
  qed
qed

lemma digit_not_special:
  "is_digit c \<Longrightarrow> \<not> is_whitespace c \<and> c \<noteq> 0x2B \<and> c \<noteq> 0x2D"
  by (auto simp: is_digit_def is_whitespace_def word_le_nat_alt)

lemma parseInt_digits: "parseInt (digits n) = Some (int n)"
proof -
  obtain c cs where d: "digits n = c # cs"
    using digits_nonempty [of n] by (cases "digits n") simp_all
  have c: "is_digit c" using digits_all [of n] d by simp
  have ns: "\<not> is_whitespace c" "c \<noteq> 0x2B" "c \<noteq> 0x2D"
    using digit_not_special [OF c] by simp_all
  have tw: "takeWhile is_digit (digits n) = digits n"
    using digits_all [of n] by (simp add: takeWhile_eq_all_conv)
  have "parseInt (c # cs) = Some (int (dec_value (c # cs)))"
    using ns tw [unfolded d] by (simp add: parseInt_def Let_def)
  then show ?thesis
    by (simp add: d [symmetric] dec_value_digits)
qed

lemma parseInt_minus_digits: "0 < n \<Longrightarrow> parseInt (0x2D # digits n) = Some (- int n)"
proof -
  have tw: "takeWhile is_digit (digits n) = digits n"
    using digits_all [of n] by (simp add: takeWhile_eq_all_conv)
  have "\<not> is_whitespace 0x2D" by (simp add: is_whitespace_def)
  then show ?thesis
    using digits_nonempty [of n] by (simp add: parseInt_def Let_def tw dec_value_digits)
qed

lemma parseInt_String_int: "parseInt (String_int n) = Some n"
proof (cases "n < 0")
  case True
  then have "0 < nat (- n)" by simp
  then show ?thesis
    using True parseInt_minus_digits [of "nat (- n)"] by (simp add: String_int_def js_def)
next
  case False
  then show ?thesis
    using parseInt_digits [of "nat n"] by (simp add: String_int_def)
qed

lemma String_int_nonempty: "String_int n \<noteq> []"
  by (simp add: String_int_def digits_nonempty)

lemma digits_well_formed: "well_formed (digits n)"
proof -
  have "(\<forall>c \<in> set s. is_digit c) \<Longrightarrow> well_formed s" for s
  proof (induction s)
    case Nil
    then show ?case by simp
  next
    case (Cons c s)
    then have "is_digit c" by simp
    then have "\<not> is_trail c" "\<not> is_lead c"
      by (auto simp: is_digit_def is_trail_def is_lead_def word_le_nat_alt word_less_nat_alt)
    then show ?case using Cons by simp
  qed
  then show ?thesis using digits_all by blast
qed

lemma lastIndexOf_split:
  assumes "c \<in> set s"
  obtains i where "lastIndexOf c s = Some i" and "take i s @ c # drop (i + 1) s = s"
proof -
  let ?P = "\<lambda>x. x \<noteq> c"
  let ?n = "length (takeWhile ?P (rev s))"
  let ?i = "length s - 1 - ?n"
  have ex: "\<exists>x \<in> set (rev s). \<not> ?P x" using assms by simp
  have "takeWhile ?P (rev s) \<noteq> rev s"
    using ex by (simp add: takeWhile_eq_all_conv)
  then have "?n \<noteq> length (rev s)"
    using takeWhile_eq_take [of ?P "rev s"] by auto
  then have n: "?n < length (rev s)"
    using length_takeWhile_le [of ?P "rev s"] by linarith
  then have n': "?n < length s" by simp
  have "\<not> ?P (rev s ! ?n)"
    using n by (rule nth_length_takeWhile)
  then have "rev s ! ?n = c" by simp
  moreover have "rev s ! ?n = s ! ?i"
    using n' by (simp add: rev_nth)
  ultimately have si: "s ! ?i = c" by simp
  have il: "?i < length s" using n' by simp
  have "take ?i s @ c # drop (?i + 1) s = s"
    using id_take_nth_drop [OF il] si by simp
  moreover have "lastIndexOf c s = Some ?i"
    using assms by (simp add: lastIndexOf_def)
  ultimately show ?thesis using that by blast
qed

subsection \<open>Parsing serialised pairs\<close>

lemma parse_pair_encode_kv:
  assumes "wf_kv kv"
  shows "parse_pair (encode_kv kv) st = dispatch (fst kv) (snd kv) st"
proof -
  have w: "well_formed (fst kv)" "well_formed (snd kv)"
    using assms by (simp_all add: wf_kv_def)
  show ?thesis
    by (simp add: parse_pair_def encode_kv_split [OF assms] decodeURIComponent_encoded w)
qed

lemma parse_pairs_encode:
  "list_all wf_kv kvs \<Longrightarrow> parse_pairs (map encode_kv kvs) st = dispatch_all kvs st"
  by (induction kvs arbitrary: st) (simp_all add: parse_pair_encode_kv cong: sum.case_cong)

lemma dispatch_all_append:
  "dispatch_all (xs @ ys) st =
     (case dispatch_all xs st of Inl e \<Rightarrow> Inl e | Inr st' \<Rightarrow> dispatch_all ys st')"
  by (induction xs arbitrary: st) (simp_all split: sum.splits)

lemma dispatch_all_snoc_Inr:
  "dispatch_all xs st = Inr st' \<Longrightarrow> dispatch_all (xs @ ys) st = dispatch_all ys st'"
  by (simp add: dispatch_all_append)

lemma dispatch_page:
  "dispatch (js ''page'') v st =
     (case parseInt v of Some n \<Rightarrow> Inr (st\<lparr>builder := page n (builder st)\<rparr>) | None \<Rightarrow> Inr st)"
  by (simp add: dispatch_def)

lemma dispatch_limit:
  "dispatch (js ''limit'') v st =
     (case parseInt v of Some n \<Rightarrow> Inr (st\<lparr>builder := limit n (builder st)\<rparr>) | None \<Rightarrow> Inr st)"
  by (simp add: dispatch_def key_neqs)

lemma dispatch_sortBy:
  "dispatch (js ''sortBy'') v st =
     (case lastIndexOf 0x3A v of
        Some i \<Rightarrow> Inr (st\<lparr>builder := sortBy (take i v) (drop (i + 1) v) (builder st)\<rparr>)
      | None \<Rightarrow> Inr st)"
  by (simp add: dispatch_def key_neqs)

lemma dispatch_search:
  "dispatch (js ''search'') v st = Inr (st\<lparr>builder := search v (builder st)\<rparr>)"
  by (simp add: dispatch_def key_neqs)

lemma dispatch_searchBy:
  "dispatch (js ''searchBy'') v st = Inr (st\<lparr>searchByValues := searchByValues st @ [v]\<rparr>)"
  by (simp add: dispatch_def key_neqs)

lemma dispatch_select:
  "dispatch (js ''select'') v st = Inr (st\<lparr>builder := select (split 0x2C v) (builder st)\<rparr>)"
  by (simp add: dispatch_def key_neqs)

lemma dispatch_cursor:
  "dispatch (js ''cursor'') v st = Inr (st\<lparr>builder := cursor v (builder st)\<rparr>)"
  by (simp add: dispatch_def key_neqs)

lemma dispatch_withDeleted:
  "dispatch (js ''withDeleted'') v st
     = Inr (st\<lparr>builder := withDeleted (v = js ''true'') (builder st)\<rparr>)"
  by (simp add: dispatch_def key_neqs)

lemma dispatch_filter_key:
  "dispatch (js ''filter.'' @ c) v st =
     (case obj_get (filterMap st) c of
        Some vs \<Rightarrow> Inr (st\<lparr>filterMap := obj_set c (vs @ [v]) (filterMap st)\<rparr>)
      | None \<Rightarrow>
          if c \<in> set Object_prototype_keys then Inl TypeError
          else Inr (st\<lparr>filterMap := obj_set c [v] (filterMap st)\<rparr>))"
proof -
  have t: "take 7 (js ''filter.'' @ c) = js ''filter.''"
    and d: "drop 7 (js ''filter.'' @ c) = c"
    by (simp_all add: js_def)
  show ?thesis
    by (simp only: dispatch_filter [OF t] d)
qed

lemma dispatch_all_sortBy:
  assumes "\<forall>s \<in> set strs. 0x3A \<in> set s"
  shows "dispatch_all (map (Pair (js ''sortBy'')) strs) st
           = Inr (st\<lparr>builder := (builder st)\<lparr>b_sortBy := b_sortBy (builder st) @ map resplit strs\<rparr>\<rparr>)"
  using assms
proof (induction strs arbitrary: st)
  case Nil
  then show ?case by simp
next
  case (Cons s strs)
  then have "0x3A \<in> set s" by simp
  then obtain i where i: "lastIndexOf 0x3A s = Some i"
    by (rule lastIndexOf_split)
  let ?st = "st\<lparr>builder := sortBy (take i s) (drop (i + 1) s) (builder st)\<rparr>"
  have d: "dispatch (js ''sortBy'') s st = Inr ?st"
    by (simp add: dispatch_sortBy i)
  have r: "resplit s = (take i s, drop (i + 1) s)"
    by (simp add: resplit_def i)
  have "dispatch_all (map (Pair (js ''sortBy'')) strs) ?st
          = Inr (?st\<lparr>builder := (builder ?st)\<lparr>b_sortBy := b_sortBy (builder ?st) @ map resplit strs\<rparr>\<rparr>)"
    using Cons by simp
  then show ?case
    by (simp add: d r sortBy_def)
qed

lemma dispatch_all_searchBy:
  "dispatch_all (map (Pair (js ''searchBy'')) cols) st
     = Inr (st\<lparr>searchByValues := searchByValues st @ cols\<rparr>)"
  by (induction cols arbitrary: st) (simp_all add: dispatch_searchBy)

lemma dispatch_all_filter_more:
  assumes "obj_get (filterMap st) c = Some vs"
  shows "dispatch_all (map (Pair (js ''filter.'' @ c)) xs) st
           = Inr (st\<lparr>filterMap := obj_set c (vs @ xs) (filterMap st)\<rparr>)"
  using assms
proof (induction xs arbitrary: st vs)
  case Nil
  have "obj_get obj c = Some vs \<Longrightarrow> obj_set c vs obj = obj" for obj
    by (induction c vs obj rule: obj_set.induct) (auto simp: obj_get_def split: if_splits)
  then have "obj_set c vs (filterMap st) = filterMap st"
    using Nil by simp
  then show ?case by simp
next
  case (Cons x xs)
  let ?st = "st\<lparr>filterMap := obj_set c (vs @ [x]) (filterMap st)\<rparr>"
  have d: "dispatch (js ''filter.'' @ c) x st = Inr ?st"
    using Cons.prems by (simp add: dispatch_filter_key)
  have g: "obj_get (filterMap ?st) c = Some (vs @ [x])"
    by (simp add: obj_get_obj_set)
  have s: "obj_set c v2 (obj_set c v1 obj) = obj_set c v2 obj" for v1 v2 :: "jsstring list" and obj
    by (induction c v1 obj rule: obj_set.induct) auto
  show ?case
    using Cons.IH [OF g] by (simp add: d s)
qed

lemma obj_set_last:
  "c \<notin> fst ` set fm \<Longrightarrow> obj_set c v (fm @ [(c, w)]) = fm @ [(c, v)]"
  by (induction c v fm rule: obj_set.induct) auto

lemma dispatch_all_filter_entry:
  assumes "c \<notin> set Object_prototype_keys" "c \<notin> fst ` set (filterMap st)" "xs \<noteq> []"
  shows "dispatch_all (map (Pair (js ''filter.'' @ c)) xs) st
           = Inr (st\<lparr>filterMap := filterMap st @ [(c, xs)]\<rparr>)"
proof -
  obtain x xs' where xs: "xs = x # xs'"
    using assms(3) by (cases xs) simp_all
  let ?st = "st\<lparr>filterMap := filterMap st @ [(c, [x])]\<rparr>"
  have n: "obj_get (filterMap st) c = None"
    using assms(2) by (simp add: obj_get_None_iff)
  have d: "dispatch (js ''filter.'' @ c) x st = Inr ?st"
    using n assms(1,2) by (simp add: dispatch_filter_key obj_set_new)
  have g: "obj_get (filterMap ?st) c = Some [x]"
    by (simp add: obj_get_append n) (simp add: obj_get_def)
  have "dispatch_all (map (Pair (js ''filter.'' @ c)) xs') ?st
          = Inr (?st\<lparr>filterMap := obj_set c ([x] @ xs') (filterMap ?st)\<rparr>)"
    using g by (rule dispatch_all_filter_more)
  then show ?thesis
    using assms(2) by (simp add: xs d obj_set_last)
qed

lemma dispatch_all_filters:
  assumes "distinct (map fst es)" "list_all filter_entry_ok es"
    and "fst ` set es \<inter> fst ` set (filterMap st) = {}"
  shows "dispatch_all (filter_kv es) st
           = Inr (st\<lparr>filterMap := filterMap st @ map (\<lambda>e. (fst e, as_array (snd e))) es\<rparr>)"
  using assms
proof (induction es arbitrary: st)
  case Nil
  then show ?case by (simp add: filter_kv_def)
next
  case (Cons e es)
  let ?st = "st\<lparr>filterMap := filterMap st @ [(fst e, as_array (snd e))]\<rparr>"
  have ok: "filter_entry_ok e" using Cons.prems(2) by simp
  then have p: "fst e \<notin> set Object_prototype_keys" and ne: "as_array (snd e) \<noteq> []"
    by (auto simp: filter_entry_ok_def split: pvalue.splits)
  have fr: "fst e \<notin> fst ` set (filterMap st)"
    using Cons.prems(3) by auto
  have 1: "dispatch_all (map (Pair (js ''filter.'' @ fst e)) (as_array (snd e))) st = Inr ?st"
    using p fr ne by (rule dispatch_all_filter_entry)
  have "fst ` set es \<inter> fst ` set (filterMap ?st) = {}"
    using Cons.prems(1,3) by auto
  then have 2: "dispatch_all (filter_kv es) ?st
          = Inr (?st\<lparr>filterMap := filterMap ?st @ map (\<lambda>e. (fst e, as_array (snd e))) es\<rparr>)"
    using Cons.IH [of ?st] Cons.prems(1,2) by simp
  have "filter_kv (e # es) = map (Pair (js ''filter.'' @ fst e)) (as_array (snd e)) @ filter_kv es"
    by (simp add: filter_kv_def)
  then show ?case
    by (simp add: dispatch_all_snoc_Inr [OF 1] 2)
qed

lemma filter_entry_normal:
  assumes "filter_entry_ok e"
  shows "(if length (as_array (snd e)) = 1 then Single (as_array (snd e) ! 0)
          else Multi (as_array (snd e))) = snd e"
  using assms by (cases "snd e") (auto simp: filter_entry_ok_def)

lemma fold_filter_by:
  assumes "distinct (map fst es)" "list_all filter_entry_ok es"
    and "fst ` set es \<inter> fst ` set (b_filter b0) = {}"
  shows "fold (\<lambda>(col, values) b. filter_by col (Multi values) b)
           (map (\<lambda>e. (fst e, as_array (snd e))) es) b0
           = b0\<lparr>b_filter := b_filter b0 @ es\<rparr>"
  using assms
proof (induction es arbitrary: b0)
  case Nil
  then show ?case by simp
next
  case (Cons e es)
  let ?b = "b0\<lparr>b_filter := b_filter b0 @ [e]\<rparr>"
  have ok: "filter_entry_ok e" using Cons.prems(2) by simp
  have fr: "fst e \<notin> fst ` set (b_filter b0)"
    using Cons.prems(3) by auto
  then have n: "obj_get (b_filter b0) (fst e) = None"
    by (simp add: obj_get_None_iff)
  have 1: "filter_by (fst e) (Multi (as_array (snd e))) b0 = ?b"
    using n fr filter_entry_normal [OF ok]
    by (simp add: filter_by_def Let_def obj_set_new)
  have "fst ` set es \<inter> fst ` set (b_filter ?b) = {}"
    using Cons.prems(1,3) by auto
  then have "fold (\<lambda>(col, values) b. filter_by col (Multi values) b)
           (map (\<lambda>e. (fst e, as_array (snd e))) es) ?b
           = ?b\<lparr>b_filter := b_filter ?b @ es\<rparr>"
    using Cons.IH [of ?b] Cons.prems(1,2) by simp
  then show ?case
    by (simp add: 1)
qed

lemma insort_key_map:
  "insort_key f (m x) (map m xs) = map m (insort_key (\<lambda>y. f (m y)) x xs)"
  by (induction xs) simp_all

lemma sort_key_map: "sort_key f (map m xs) = map m (sort_key (\<lambda>y. f (m y)) xs)"
  by (induction xs) (simp_all add: insort_key_map)

lemma Object_entries_alt:
  "Object_entries obj =
     sort_key (\<lambda>e. the (array_index (fst e))) (filter (\<lambda>e. array_index (fst e) \<noteq> None) obj)
     @ filter (\<lambda>e. array_index (fst e) = None) obj"
  by (simp add: Object_entries_def case_prod_unfold)

lemma Object_entries_map_values:
  "Object_entries (map (\<lambda>e. (fst e, h (snd e))) obj) = map (\<lambda>e. (fst e, h (snd e))) (Object_entries obj)"
  by (simp add: Object_entries_alt filter_map comp_def sort_key_map)

lemma Object_entries_idem: "Object_entries (Object_entries obj) = Object_entries obj"
proof -
  let ?P = "\<lambda>e :: jsstring \<times> 'a. array_index (fst e) \<noteq> None"
  let ?N = "\<lambda>e :: jsstring \<times> 'a. array_index (fst e) = None"
  let ?f = "\<lambda>e :: jsstring \<times> 'a. the (array_index (fst e))"
  have pn: "filter ?P (filter ?N xs) = []" "filter ?N (filter ?P xs) = []"
    for xs :: "(jsstring \<times> 'a) list"
    by (auto simp: filter_empty_conv)
  have pp: "filter ?P (filter ?P xs) = filter ?P xs" "filter ?N (filter ?N xs) = filter ?N xs"
    for xs :: "(jsstring \<times> 'a) list"
    by simp_all
  have 1: "filter ?P (Object_entries obj) = sort_key ?f (filter ?P obj)"
    unfolding Object_entries_alt [of obj] filter_append filter_sort pn pp by simp
  have 2: "filter ?N (Object_entries obj) = filter ?N obj"
    unfolding Object_entries_alt [of obj] filter_append filter_sort pn pp by simp
  have 3: "sort_key ?f (sort_key ?f (filter ?P obj)) = sort_key ?f (filter ?P obj)"
    by (rule sort_key_id_if_sorted) simp
  have "Object_entries (Object_entries obj)
          = sort_key ?f (filter ?P (Object_entries obj)) @ filter ?N (Object_entries obj)"
    by (rule Object_entries_alt)
  also have "\<dots> = sort_key ?f (filter ?P obj) @ filter ?N obj"
    by (simp only: 1 2 3)
  finally show ?thesis
    by (simp only: Object_entries_alt [symmetric])
qed

lemma kv_pairs_append: "kv_pairs (xs @ ys) = kv_pairs xs @ kv_pairs ys"
  by (simp add: kv_pairs_def)

lemma kv_pairs_opt_entry:
  "kv_pairs (opt_entry k vo) = (case vo of None \<Rightarrow> [] | Some v \<Rightarrow> map (Pair k) (nonempty_values v))"
  by (cases vo) (simp_all add: kv_pairs_def opt_entry_def kv_of_def)

lemma nonempty_values_ok:
  "filter_entry_ok (c, v) \<Longrightarrow> nonempty_values v = as_array v"
  by (cases v) (auto simp: filter_entry_ok_def nonempty_values_def filter_id_conv)

lemma kv_pairs_filter_entries:
  assumes "list_all filter_entry_ok flt"
  shows "kv_pairs (filter_entries flt) = filter_kv (Object_entries flt)"
proof -
  have "list_all filter_entry_ok es \<Longrightarrow>
          kv_pairs (map (\<lambda>(c, v). (js ''filter.'' @ c, v)) es) = filter_kv es" for es
    by (induction es)
       (auto simp: kv_pairs_def filter_kv_def kv_of_def nonempty_values_ok)
  then show ?thesis
    using assms by (simp add: filter_entries_def list_all_Object_entries)
qed

lemma parse_fragments_query:
  assumes "list_all wf_kv kvs"
  shows "parse_pairs (fragments (query_of kvs)) st = dispatch_all kvs st"
proof (cases "kvs = []")
  case True
  then show ?thesis
    by (simp add: query_of_def fragments_def parse_pair_def)
next
  case False
  let ?ps = "map encode_kv kvs"
  have ne: "?ps \<noteq> []" using False by simp
  have a: "\<forall>p \<in> set ?ps. 0x26 \<notin> set p"
    using assms encode_kv_split(5) by (auto simp: list_all_iff)
  have "split 0x26 (join [0x26] ?ps) = ?ps"
    using ne a by (rule split_join)
  then have "fragments (query_of kvs) = ?ps"
    using ne by (simp add: query_of_def fragments_def js_eq)
  then show ?thesis
    using assms by (simp add: parse_pairs_encode)
qed

lemma seg_page:
  "dispatch_all (kv_pairs (opt_entry (js ''page'') (map_option (\<lambda>n. Single (String_int n)) p))) st
     = Inr (case p of None \<Rightarrow> st | Some n \<Rightarrow> st\<lparr>builder := page n (builder st)\<rparr>)"
  by (cases p)
     (simp_all add: kv_pairs_opt_entry nonempty_values_def String_int_nonempty dispatch_page
        parseInt_String_int)

lemma seg_limit:
  "dispatch_all (kv_pairs (opt_entry (js ''limit'') (map_option (\<lambda>n. Single (String_int n)) p))) st
     = Inr (case p of None \<Rightarrow> st | Some n \<Rightarrow> st\<lparr>builder := limit n (builder st)\<rparr>)"
  by (cases p)
     (simp_all add: kv_pairs_opt_entry nonempty_values_def String_int_nonempty dispatch_limit
        parseInt_String_int)

lemma seg_sortBy:
  "dispatch_all (kv_pairs (opt_entry (js ''sortBy'')
       (if srt \<noteq> [] then Some (Multi (map (\<lambda>(col, dir). col @ js '':'' @ dir) srt)) else None))) st
     = Inr (st\<lparr>builder := (builder st)\<lparr>b_sortBy := b_sortBy (builder st)
              @ map (\<lambda>(col, dir). resplit (col @ js '':'' @ dir)) srt\<rparr>\<rparr>)"
proof (cases "srt = []")
  case True
  then show ?thesis by (simp add: kv_pairs_opt_entry)
next
  case False
  let ?strs = "map (\<lambda>(col, dir). col @ js '':'' @ dir) srt"
  have c: "\<forall>s \<in> set ?strs. 0x3A \<in> set s"
    by (auto simp: js_eq)
  then have "\<forall>s \<in> set ?strs. s \<noteq> []" by auto
  then have n: "nonempty_values (Multi ?strs) = ?strs"
    by (simp add: nonempty_values_def filter_id_conv)
  have "map resplit ?strs = map (\<lambda>(col, dir). resplit (col @ js '':'' @ dir)) srt"
    by (simp add: comp_def case_prod_beta)
  then show ?thesis
    using False dispatch_all_sortBy [OF c, of st]
    by (simp add: kv_pairs_opt_entry n)
qed

lemma seg_search:
  "dispatch_all (kv_pairs (opt_entry (js ''search'')
       (case s of Some x \<Rightarrow> if x \<noteq> [] then Some (Single x) else None | None \<Rightarrow> None))) st
     = Inr (case s of Some x \<Rightarrow> if x \<noteq> [] then st\<lparr>builder := search x (builder st)\<rparr> else st
                    | None \<Rightarrow> st)"
  by (cases s) (simp_all add: kv_pairs_opt_entry nonempty_values_def dispatch_search)

lemma seg_searchBy:
  assumes "[] \<notin> set cols"
  shows "dispatch_all (kv_pairs (opt_entry (js ''searchBy'')
            (if cols \<noteq> [] then Some (Multi cols) else None))) st
           = Inr (st\<lparr>searchByValues := searchByValues st @ cols\<rparr>)"
proof -
  have "nonempty_values (Multi cols) = cols"
    using assms by (auto simp: nonempty_values_def filter_id_conv)
  then show ?thesis
    by (cases "cols = []") (simp_all add: kv_pairs_opt_entry dispatch_all_searchBy)
qed

lemma join_select_nonempty:
  assumes "cols \<noteq> []" "cols \<noteq> [[]]"
  shows "join (js '','') cols \<noteq> []"
proof (cases cols)
  case Nil
  then show ?thesis using assms(1) by simp
next
  case (Cons x xs)
  then show ?thesis using assms(2) by (cases xs) (simp_all add: js_eq)
qed

lemma seg_select:
  assumes "cols \<noteq> [[]]"
  shows "dispatch_all (kv_pairs (opt_entry (js ''select'')
            (if cols \<noteq> [] then Some (Single (join (js '','') cols)) else None))) st
           = Inr (if cols \<noteq> [] then st\<lparr>builder := select (split 0x2C (join (js '','') cols)) (builder st)\<rparr>
                  else st)"
  using join_select_nonempty [OF _ assms]
  by (cases "cols = []") (simp_all add: kv_pairs_opt_entry nonempty_values_def dispatch_select)

lemma seg_cursor:
  assumes "c \<noteq> Some []"
  shows "dispatch_all (kv_pairs (opt_entry (js ''cursor'') (map_option Single c))) st
           = Inr (case c of None \<Rightarrow> st | Some x \<Rightarrow> st\<lparr>builder := cursor x (builder st)\<rparr>)"
  using assms
  by (cases c) (simp_all add: kv_pairs_opt_entry nonempty_values_def dispatch_cursor)

lemma seg_withDeleted:
  "dispatch_all (kv_pairs (withDeleted_entry b)) st
     = Inr (if b_withDeleted b = Some True then st\<lparr>builder := withDeleted True (builder st)\<rparr>
            else st)"
proof -
  have "js ''true'' \<noteq> []" by (simp add: js_def)
  then show ?thesis
    by (simp add: withDeleted_entry_def kv_pairs_opt_entry nonempty_values_def
          dispatch_withDeleted)
qed

lemma seg_filters:
  assumes "distinct (map fst flt)" "list_all filter_entry_ok flt" "filterMap st = []"
  shows "dispatch_all (kv_pairs (filter_entries flt)) st
           = Inr (st\<lparr>filterMap := map (\<lambda>e. (fst e, as_array (snd e))) (Object_entries flt)\<rparr>)"
proof -
  have "dispatch_all (filter_kv (Object_entries flt)) st
          = Inr (st\<lparr>filterMap := filterMap st
                   @ map (\<lambda>e. (fst e, as_array (snd e))) (Object_entries flt)\<rparr>)"
  proof (rule dispatch_all_filters)
    show "distinct (map fst (Object_entries flt))"
      using assms(1) by (rule distinct_Object_entries)
    show "list_all filter_entry_ok (Object_entries flt)"
      using assms(2) by (simp add: list_all_Object_entries)
    show "fst ` set (Object_entries flt) \<inter> fst ` set (filterMap st) = {}"
      using assms(3) by simp
  qed
  then show ?thesis
    using assms(2,3) by (simp add: kv_pairs_filter_entries)
qed

lemma builder_toQueryString_query_of:
  assumes "distinct (map fst (b_filter b))" "encodable (toParams b)"
  shows "builder_toQueryString b = Inr (query_of (kv_pairs (toParams b)))"
proof -
  have "all_pairs (toParams b) = map encode_kv (kv_pairs (toParams b))"
    using assms(1) by (simp add: all_pairs_def Object_entries_toParams pairs_of_kv [unfolded pairs_of_def])
  then show ?thesis
    using assms(2) by (simp add: builder_toQueryString_def toQueryString_eq query_of_def)
qed

lemma parse_serialised:
  assumes d: "distinct (map fst (b_filter b))" and rt: "round_trips b"
  shows "dispatch_all (kv_pairs (toParams b)) initial_state
           = Inr \<lparr>builder = (reparsed b)\<lparr>b_searchBy := [], b_filter := []\<rparr>,
                  searchByValues = b_searchBy b,
                  filterMap = map (\<lambda>e. (fst e, as_array (snd e))) (Object_entries (b_filter b))\<rparr>"
proof -
  have c1: "b_cursor b \<noteq> Some []" and c2: "[] \<notin> set (b_searchBy b)" and c3: "b_select b \<noteq> [[]]"
    and c4: "list_all filter_entry_ok (b_filter b)"
    using rt by (simp_all add: round_trips_def)
  define s1 where "s1 = (case b_page b of None \<Rightarrow> initial_state
      | Some n \<Rightarrow> initial_state\<lparr>builder := page n (builder initial_state)\<rparr>)"
  define s2 where "s2 = (case b_limit b of None \<Rightarrow> s1
      | Some n \<Rightarrow> s1\<lparr>builder := limit n (builder s1)\<rparr>)"
  define s3 where "s3 = s2\<lparr>builder := (builder s2)\<lparr>b_sortBy := b_sortBy (builder s2)
      @ map (\<lambda>(col, dir). resplit (col @ js '':'' @ dir)) (b_sortBy b)\<rparr>\<rparr>"
  define s4 where "s4 = (case b_search b of
        Some x \<Rightarrow> if x \<noteq> [] then s3\<lparr>builder := search x (builder s3)\<rparr> else s3
      | None \<Rightarrow> s3)"
  define s5 where "s5 = s4\<lparr>searchByValues := searchByValues s4 @ b_searchBy b\<rparr>"
  define s6 where "s6 = (if b_select b \<noteq> []
      then s5\<lparr>builder := select (split 0x2C (join (js '','') (b_select b))) (builder s5)\<rparr>
      else s5)"
  define s7 where "s7 = (case b_cursor b of None \<Rightarrow> s6
      | Some x \<Rightarrow> s6\<lparr>builder := cursor x (builder s6)\<rparr>)"
  define s8 where "s8 = (if b_withDeleted b = Some True
      then s7\<lparr>builder := withDeleted True (builder s7)\<rparr> else s7)"
  define s9 where "s9 = s8\<lparr>filterMap :=
      map (\<lambda>e. (fst e, as_array (snd e))) (Object_entries (b_filter b))\<rparr>"
  have f1: "filterMap s1 = []"
    by (simp add: s1_def initial_state_def split: option.splits)
  have f2: "filterMap s2 = []"
    by (simp add: s2_def f1 split: option.splits)
  have f3: "filterMap s3 = []"
    by (simp add: s3_def f2)
  have f4: "filterMap s4 = []"
    by (simp add: s4_def f3 split: option.splits)
  have f5: "filterMap s5 = []"
    by (simp add: s5_def f4)
  have f6: "filterMap s6 = []"
    by (simp add: s6_def f5)
  have f7: "filterMap s7 = []"
    by (simp add: s7_def f6 split: option.splits)
  have f8: "filterMap s8 = []"
    by (simp add: s8_def f7)
  have k: "kv_pairs (toParams b) =
      kv_pairs (opt_entry (js ''page'') (map_option (\<lambda>n. Single (String_int n)) (b_page b)))
    @ kv_pairs (opt_entry (js ''limit'') (map_option (\<lambda>n. Single (String_int n)) (b_limit b)))
    @ kv_pairs (opt_entry (js ''sortBy'')
         (if b_sortBy b \<noteq> [] then Some (Multi (map (\<lambda>(col, dir). col @ js '':'' @ dir) (b_sortBy b)))
          else None))
    @ kv_pairs (opt_entry (js ''search'')
         (case b_search b of Some s \<Rightarrow> if s \<noteq> [] then Some (Single s) else None | None \<Rightarrow> None))
    @ kv_pairs (opt_entry (js ''searchBy'')
         (if b_searchBy b \<noteq> [] then Some (Multi (b_searchBy b)) else None))
    @ kv_pairs (opt_entry (js ''select'')
         (if b_select b \<noteq> [] then Some (Single (join (js '','') (b_select b))) else None))
    @ kv_pairs (opt_entry (js ''cursor'') (map_option Single (b_cursor b)))
    @ kv_pairs (withDeleted_entry b)
    @ kv_pairs (filter_entries (b_filter b))"
    by (simp add: toParams_eq [OF d] common_entries_def kv_pairs_append)
  have r1: "dispatch_all (kv_pairs (opt_entry (js ''page'')
              (map_option (\<lambda>n. Single (String_int n)) (b_page b)))) initial_state = Inr s1"
    unfolding s1_def by (rule seg_page)
  have r2: "dispatch_all (kv_pairs (opt_entry (js ''limit'')
              (map_option (\<lambda>n. Single (String_int n)) (b_limit b)))) s1 = Inr s2"
    unfolding s2_def by (rule seg_limit)
  have r3: "dispatch_all (kv_pairs (opt_entry (js ''sortBy'')
         (if b_sortBy b \<noteq> [] then Some (Multi (map (\<lambda>(col, dir). col @ js '':'' @ dir) (b_sortBy b)))
          else None))) s2 = Inr s3"
    unfolding s3_def by (rule seg_sortBy)
  have r4: "dispatch_all (kv_pairs (opt_entry (js ''search'')
         (case b_search b of Some s \<Rightarrow> if s \<noteq> [] then Some (Single s) else None | None \<Rightarrow> None)))
         s3 = Inr s4"
    unfolding s4_def by (rule seg_search)
  have r5: "dispatch_all (kv_pairs (opt_entry (js ''searchBy'')
         (if b_searchBy b \<noteq> [] then Some (Multi (b_searchBy b)) else None))) s4 = Inr s5"
    unfolding s5_def using c2 by (rule seg_searchBy)
  have r6: "dispatch_all (kv_pairs (opt_entry (js ''select'')
         (if b_select b \<noteq> [] then Some (Single (join (js '','') (b_select b))) else None))) s5
         = Inr s6"
    unfolding s6_def using c3 by (rule seg_select)
  have r7: "dispatch_all (kv_pairs (opt_entry (js ''cursor'') (map_option Single (b_cursor b)))) s6
         = Inr s7"
    unfolding s7_def using c1 by (rule seg_cursor)
  have r8: "dispatch_all (kv_pairs (withDeleted_entry b)) s7 = Inr s8"
    unfolding s8_def by (rule seg_withDeleted)
  have r9: "dispatch_all (kv_pairs (filter_entries (b_filter b))) s8 = Inr s9"
    unfolding s9_def using d c4 f8 by (rule seg_filters)
  have all: "dispatch_all (kv_pairs (toParams b)) initial_state = Inr s9"
    unfolding k
    by (simp only: dispatch_all_snoc_Inr [OF r1] dispatch_all_snoc_Inr [OF r2]
          dispatch_all_snoc_Inr [OF r3] dispatch_all_snoc_Inr [OF r4]
          dispatch_all_snoc_Inr [OF r5] dispatch_all_snoc_Inr [OF r6]
          dispatch_all_snoc_Inr [OF r7] dispatch_all_snoc_Inr [OF r8] r9)
  have b1: "builder s1 = newBuilder\<lparr>b_page := b_page b\<rparr>"
    by (simp add: s1_def initial_state_def page_def newBuilder_def split: option.splits)
  have b2: "builder s2 = newBuilder\<lparr>b_page := b_page b, b_limit := b_limit b\<rparr>"
    by (simp add: s2_def b1 limit_def newBuilder_def split: option.splits)
  have b3: "builder s3 = newBuilder\<lparr>b_page := b_page b, b_limit := b_limit b,
              b_sortBy := b_sortBy (reparsed b)\<rparr>"
    by (simp add: s3_def b2 newBuilder_def reparsed_def)
  have b4: "builder s4 = newBuilder\<lparr>b_page := b_page b, b_limit := b_limit b,
              b_sortBy := b_sortBy (reparsed b), b_search := b_search (reparsed b)\<rparr>"
    by (simp add: s4_def b3 newBuilder_def reparsed_def search_def split: option.splits)
  have b5: "builder s5 = builder s4"
    by (simp add: s5_def)
  have b6: "builder s6 = newBuilder\<lparr>b_page := b_page b, b_limit := b_limit b,
              b_sortBy := b_sortBy (reparsed b), b_search := b_search (reparsed b),
              b_select := b_select (reparsed b)\<rparr>"
    by (simp add: s6_def b5 b4 newBuilder_def reparsed_def select_def)
  have b7: "builder s7 = newBuilder\<lparr>b_page := b_page b, b_limit := b_limit b,
              b_sortBy := b_sortBy (reparsed b), b_search := b_search (reparsed b),
              b_select := b_select (reparsed b), b_cursor := b_cursor b\<rparr>"
    by (simp add: s7_def b6 newBuilder_def cursor_def split: option.splits)
  have b8: "builder s8 = newBuilder\<lparr>b_page := b_page b, b_limit := b_limit b,
              b_sortBy := b_sortBy (reparsed b), b_search := b_search (reparsed b),
              b_select := b_select (reparsed b), b_cursor := b_cursor b,
              b_withDeleted := b_withDeleted (reparsed b)\<rparr>"
    by (simp add: s8_def b7 newBuilder_def withDeleted_def reparsed_def)
  have sv: "searchByValues s8 = b_searchBy b"
    by (simp add: s8_def s7_def s6_def s5_def s4_def s3_def s2_def s1_def initial_state_def
          split: option.splits)
  have "s9 = \<lparr>builder = (reparsed b)\<lparr>b_searchBy := [], b_filter := []\<rparr>,
                  searchByValues = b_searchBy b,
                  filterMap = map (\<lambda>e. (fst e, as_array (snd e))) (Object_entries (b_filter b))\<rparr>"
    by (simp add: s9_def b8 [symmetric] sv [symmetric])
       (simp add: b8 newBuilder_def reparsed_def)
  then show ?thesis
    using all by simp
qed

lemma finish_serialised:
  assumes d: "distinct (map fst (b_filter b))" and ok: "list_all filter_entry_ok (b_filter b)"
  shows "finish \<lparr>builder = (reparsed b)\<lparr>b_searchBy := [], b_filter := []\<rparr>,
                  searchByValues = b_searchBy b,
                  filterMap = map (\<lambda>e. (fst e, as_array (snd e))) (Object_entries (b_filter b))\<rparr>
           = reparsed b"
proof -
  let ?es = "Object_entries (b_filter b)"
  let ?b1 = "(reparsed b)\<lparr>b_filter := []\<rparr>"
  have b1: "searchBy (b_searchBy b) ((reparsed b)\<lparr>b_searchBy := [], b_filter := []\<rparr>) = ?b1"
    by (simp add: searchBy_def reparsed_def)
  have b1': "b_searchBy b = [] \<Longrightarrow> (reparsed b)\<lparr>b_searchBy := [], b_filter := []\<rparr> = ?b1"
    by (simp add: reparsed_def)
  have oe: "Object_entries (map (\<lambda>e. (fst e, as_array (snd e))) ?es)
              = map (\<lambda>e. (fst e, as_array (snd e))) ?es"
    by (simp only: Object_entries_map_values Object_entries_idem)
  have "fold (\<lambda>(col, values) b. filter_by col (Multi values) b)
           (map (\<lambda>e. (fst e, as_array (snd e))) ?es) ?b1
           = ?b1\<lparr>b_filter := b_filter ?b1 @ ?es\<rparr>"
  proof (rule fold_filter_by)
    show "distinct (map fst ?es)"
      using d by (rule distinct_Object_entries)
    show "list_all filter_entry_ok ?es"
      using ok by (simp add: list_all_Object_entries)
    show "fst ` set ?es \<inter> fst ` set (b_filter ?b1) = {}"
      by simp
  qed
  moreover have "?b1\<lparr>b_filter := b_filter ?b1 @ ?es\<rparr> = reparsed b"
    by (simp add: reparsed_def)
  ultimately have "fold (\<lambda>(col, values) b. filter_by col (Multi values) b)
           (map (\<lambda>e. (fst e, as_array (snd e))) ?es) ?b1 = reparsed b"
    by simp
  then show ?thesis
    by (cases "b_searchBy b = []") (simp_all add: finish_def Let_def b1 b1' oe)
qed

lemma fromQueryString_serialised:
  assumes d: "distinct (map fst (b_filter b))" and rt: "round_trips b"
  shows "fromQueryString (query_of (kv_pairs (toParams b))) = Inr (reparsed b)"
proof -
  have en: "list_all encodable_entry (toParams b)"
    using rt by (simp add: round_trips_def encodable_def)
  have w: "list_all wf_kv (kv_pairs (toParams b))"
    using en by (rule encodable_wf_kv)
  have ok: "list_all filter_entry_ok (b_filter b)"
    using rt by (simp add: round_trips_def)
  show ?thesis
    by (simp add: fromQueryString_fragments parse_fragments_query [OF w]
          parse_serialised [OF d rt] finish_serialised [OF d ok])
qed

lemma rejoin_resplit:
  "(\<lambda>(c, d). c @ js '':'' @ d) (resplit (col @ js '':'' @ dir)) = col @ js '':'' @ dir"
proof -
  let ?s = "col @ js '':'' @ dir"
  have "0x3A \<in> set ?s" by (simp add: js_eq)
  then obtain i where "lastIndexOf 0x3A ?s = Some i" "take i ?s @ 0x3A # drop (i + 1) ?s = ?s"
    by (rule lastIndexOf_split)
  then show ?thesis
    by (simp add: resplit_def js_eq)
qed

lemma common_entries_reparsed: "common_entries (reparsed b) = common_entries b"
proof -
  have s: "map (\<lambda>(c, d). c @ js '':'' @ d) (b_sortBy (reparsed b))
             = map (\<lambda>(c, d). c @ js '':'' @ d) (b_sortBy b)"
    using rejoin_resplit by (simp add: reparsed_def comp_def case_prod_beta)
  have s0: "(b_sortBy (reparsed b) \<noteq> []) = (b_sortBy b \<noteq> [])"
    by (simp add: reparsed_def)
  have se: "(case b_search (reparsed b) of
               Some x \<Rightarrow> if x \<noteq> [] then Some (Single x) else None | None \<Rightarrow> None)
             = (case b_search b of
               Some x \<Rightarrow> if x \<noteq> [] then Some (Single x) else None | None \<Rightarrow> None)"
    by (simp add: reparsed_def split: option.splits)
  have c0: "(b_select (reparsed b) \<noteq> []) = (b_select b \<noteq> [])"
    by (simp add: reparsed_def)
  have c: "b_select b \<noteq> [] \<Longrightarrow>
             join (js '','') (b_select (reparsed b)) = join (js '','') (b_select b)"
    using join_split [of "0x2C" "join (js '','') (b_select b)"]
    by (simp add: reparsed_def js_eq)
  have sel: "(if b_select (reparsed b) \<noteq> []
              then Some (Single (join (js '','') (b_select (reparsed b)))) else None)
             = (if b_select b \<noteq> [] then Some (Single (join (js '','') (b_select b))) else None)"
    using c c0 by simp
  have o: "b_page (reparsed b) = b_page b" "b_limit (reparsed b) = b_limit b"
    "b_searchBy (reparsed b) = b_searchBy b" "b_cursor (reparsed b) = b_cursor b"
    by (simp_all add: reparsed_def)
  show ?thesis
    unfolding common_entries_def s s0 se sel o ..
qed

lemma toParams_reparsed:
  assumes "distinct (map fst (b_filter b))"
  shows "toParams (reparsed b) = toParams b"
proof -
  have d': "distinct (map fst (b_filter (reparsed b)))"
    using assms by (simp add: reparsed_def distinct_Object_entries)
  have w: "withDeleted_entry (reparsed b) = withDeleted_entry b"
    by (simp add: withDeleted_entry_def reparsed_def)
  have f: "filter_entries (b_filter (reparsed b)) = filter_entries (b_filter b)"
    by (simp add: filter_entries_def reparsed_def Object_entries_idem)
  show ?thesis
    by (simp add: toParams_eq [OF assms] toParams_eq [OF d'] common_entries_reparsed w f)
qed

subsection \<open>String literals\<close>

lemma js_Nil_iff [simp]: "js s = [] \<longleftrightarrow> s = []" "[] = js s \<longleftrightarrow> s = []"
  by (auto simp: js_def)

lemma js_char_plain: "\<not> is_trail (of_nat (of_char c)) \<and> \<not> is_lead (of_nat (of_char c))"
proof -
  have lt: "(of_char c :: nat) < 256"
    by simp
  then have "(of_char c :: nat) < 65536"
    by linarith
  then have u: "unat (of_nat (of_char c) :: 16 word) = of_char c"
    unfolding unat_of_nat by (simp only: len_bit0 len_num1 mod_less, simp)
  have n: "\<not> (56320 :: nat) \<le> of_char c" "\<not> (55296 :: nat) \<le> of_char c"
    using lt by linarith+
  show ?thesis
    by (simp add: is_trail_def is_lead_def word_le_nat_alt word_less_nat_alt u n)
qed

lemma well_formed_js: "well_formed (js s)"
  by (induction s) (simp_all add: js_def js_char_plain)

lemma well_formed_append: "well_formed a \<Longrightarrow> well_formed b \<Longrightarrow> well_formed (a @ b)"
proof (induction a rule: well_formed.induct)
  case 1
  then show ?case by simp
next
  case (2 c cs)
  have nt: "\<not> is_trail c" using "2.prems"(1) by (auto split: if_splits)
  show ?case
  proof (cases "is_lead c")
    case True
    then obtain d ds where cs: "cs = d # ds" and t: "is_trail d" and w: "well_formed ds"
      using "2.prems"(1) nt by (cases cs) auto
    then show ?thesis
      using "2.IH"(1) [OF nt True cs] "2.prems"(2) nt True by simp
  next
    case False
    then have "well_formed cs" using "2.prems"(1) nt by simp
    then show ?thesis
      using "2.IH"(2) [OF nt False] "2.prems"(2) nt False by simp
  qed
qed

subsection \<open>The round trip\<close>

text \<open>
  C1 as stated fails on a state that holds an empty string: \<open>toParams\<close> keeps
  \<open>cursor: ""\<close>, \<open>toQueryString\<close> emits no pair for it, and the parsed builder has no
  cursor.
\<close>

theorem round_trip_loses_empty_cursor:
  "builder_toQueryString (run [Page 1, Cursor []] newBuilder) = Inr (js ''?page=1'')
   \<and> fromQueryString (js ''?page=1'') = Inr (run [Page 1] newBuilder)
   \<and> toParams (run [Page 1] newBuilder) = [(js ''page'', Single (js ''1''))]
   \<and> toParams (run [Page 1, Cursor []] newBuilder)
       = [(js ''page'', Single (js ''1'')), (js ''cursor'', Single [])]"
proof -
  let ?b = "run [Page 1, Cursor []] newBuilder"
  have d: "distinct (map fst (b_filter ?b))" "distinct (map fst (b_filter (run [Page 1] newBuilder)))"
    by (rule distinct_filter_run)+
  have s1: "String_int 1 = js ''1''"
    by (simp add: String_int_def digits.simps digit_char_def js_def)
  have p: "toParams ?b = [(js ''page'', Single (js ''1'')), (js ''cursor'', Single [])]"
    by (simp add: toParams_eq [OF d(1)])
       (simp add: common_entries_def withDeleted_entry_def filter_entries_def opt_entry_def
          run_def page_def cursor_def newBuilder_def Object_entries_def s1)
  have p1: "toParams (run [Page 1] newBuilder) = [(js ''page'', Single (js ''1''))]"
    by (simp add: toParams_eq [OF d(2)])
       (simp add: common_entries_def withDeleted_entry_def filter_entries_def opt_entry_def
          run_def page_def newBuilder_def Object_entries_def s1)
  have k: "wf_kv (js ''page'', js ''1'')"
    by (simp add: wf_kv_def js_def is_trail_def is_lead_def)
  have e: "encode_kv (js ''page'', js ''1'') = js ''page=1''"
    by (simp add: encode_kv_def encoded_def js_def unescaped_def is_digit_def is_lower_def
          is_upper_def)
  have 1: "builder_toQueryString ?b = Inr (js ''?page=1'')"
    using k e
    by (simp only: builder_toQueryString_def toQueryString_eq encodable_def all_pairs_def
          Object_entries_toParams [OF d(1)])
       (simp add: p encodable_entry_def nonempty_values_def entry_pairs_kv kv_of_def wf_kv_def,
        simp add: js_def)
  have 2: "fromQueryString (js ''?page=1'') = Inr (run [Page 1] newBuilder)"
    by (simp add: fromQueryString_fragments fragments_def js_def initial_state_def parse_pair_def
        indexOf_def decodeURIComponent_def hex_val_def is_digit_def dispatch_def parseInt_def
        is_whitespace_def dec_value_def finish_def Object_entries_def run_def)
  show ?thesis
    using 1 2 p p1 by simp
qed

text \<open>
  C1, amended. For every builder state reached through the public mutators in which
  \<open>page\<close> and \<open>limit\<close> (if set) are safe integers, the cursor (if set) is not the
  empty string, no \<open>searchBy\<close> column is empty, the \<open>select\<close> list is not the single
  empty column,
  every filter column is other than a property name of \<open>Object.prototype\<close> and holds
  either one non-empty token or an array of at least two non-empty tokens, and no
  serialised key or value holds an unpaired surrogate: \<open>toQueryString\<close> returns a
  string, \<open>fromQueryString\<close> returns a builder for that string, and \<open>toParams\<close> of the
  parsed builder equals \<open>toParams\<close> of the original, entry by entry and in the same
  order.
\<close>

theorem round_trip:
  assumes "round_trips (run calls newBuilder)"
  shows "case builder_toQueryString (run calls newBuilder) of
           Inl e \<Rightarrow> False
         | Inr q \<Rightarrow>
             (case fromQueryString q of
                Inl e \<Rightarrow> False
              | Inr parsed \<Rightarrow> toParams parsed = toParams (run calls newBuilder))"
proof -
  let ?b = "run calls newBuilder"
  have d: "distinct (map fst (b_filter ?b))"
    by (rule distinct_filter_run)
  have en: "encodable (toParams ?b)"
    using assms by (simp add: round_trips_def)
  have q: "builder_toQueryString ?b = Inr (query_of (kv_pairs (toParams ?b)))"
    using d en by (rule builder_toQueryString_query_of)
  have p: "fromQueryString (query_of (kv_pairs (toParams ?b))) = Inr (reparsed ?b)"
    using d assms by (rule fromQueryString_serialised)
  show ?thesis
    by (simp add: q p toParams_reparsed [OF d])
qed

theorem round_trip_witness:
  "round_trips (run [Page 1, Limit 10, SortBy (js ''name'') ASC, Search (js ''test''),
       SearchBy [js ''name'', js ''email''], Select [js ''id'', js ''name''],
       Filter (js ''name'') (Single (js ''$or:$eq:A'')),
       Filter (js ''name'') (Single (js ''$or:$eq:B''))] newBuilder)
   \<and> (case builder_toQueryString (run [Page 1, Limit 10, SortBy (js ''name'') ASC,
            Search (js ''test''), SearchBy [js ''name'', js ''email''],
            Select [js ''id'', js ''name''],
            Filter (js ''name'') (Single (js ''$or:$eq:A'')),
            Filter (js ''name'') (Single (js ''$or:$eq:B''))] newBuilder) of
         Inl e \<Rightarrow> False
       | Inr q \<Rightarrow>
           (case fromQueryString q of
              Inl e \<Rightarrow> False
            | Inr parsed \<Rightarrow>
                toParams parsed
                  = toParams (run [Page 1, Limit 10, SortBy (js ''name'') ASC,
                      Search (js ''test''), SearchBy [js ''name'', js ''email''],
                      Select [js ''id'', js ''name''],
                      Filter (js ''name'') (Single (js ''$or:$eq:A'')),
                      Filter (js ''name'') (Single (js ''$or:$eq:B''))] newBuilder)))"
proof -
  let ?cs = "[Page 1, Limit 10, SortBy (js ''name'') ASC, Search (js ''test''),
       SearchBy [js ''name'', js ''email''], Select [js ''id'', js ''name''],
       Filter (js ''name'') (Single (js ''$or:$eq:A'')),
       Filter (js ''name'') (Single (js ''$or:$eq:B''))]"
  let ?b = "run ?cs newBuilder"
  have d: "distinct (map fst (b_filter ?b))"
    by (rule distinct_filter_run)
  have b: "?b = \<lparr>b_page = Some 1, b_limit = Some 10, b_sortBy = [(js ''name'', js ''ASC'')],
      b_search = Some (js ''test''), b_searchBy = [js ''name'', js ''email''],
      b_select = [js ''id'', js ''name''],
      b_filter = [(js ''name'', Multi [js ''$or:$eq:A'', js ''$or:$eq:B''])],
      b_cursor = None, b_withDeleted = None\<rparr>"
    by (simp add: run_def newBuilder_def page_def limit_def sortBy_def search_def searchBy_def
          select_def filter_by_def Let_def obj_get_def)
  have w: "well_formed (digits n)" for n
    by (rule digits_well_formed)
  have wi: "well_formed (String_int n)" for n
    using w by (simp add: String_int_def js_def is_trail_def is_lead_def)
  have e: "encodable (toParams ?b)"
    unfolding encodable_toParams [OF d]
    by (simp add: b common_entries_def withDeleted_entry_def opt_entry_def
          list_all_filter_entries encodable_entry_def nonempty_values_def wi String_int_nonempty
          well_formed_js well_formed_append)
  have pk: "js ''name'' \<notin> set Object_prototype_keys"
    by (simp add: Object_prototype_keys_def js_def)
  have c: "b_cursor ?b \<noteq> Some [] \<and> [] \<notin> set (b_searchBy ?b) \<and> b_select ?b \<noteq> [[]]
             \<and> list_all filter_entry_ok (b_filter ?b)"
    by (simp add: b filter_entry_ok_def pk)
  have n: "(case b_page ?b of Some n \<Rightarrow> safe_integer n | None \<Rightarrow> True)
             \<and> (case b_limit ?b of Some n \<Rightarrow> safe_integer n | None \<Rightarrow> True)"
    by (simp add: b safe_integer_def)
  have h: "round_trips ?b"
    unfolding round_trips_def using n c e by blast
  show ?thesis
    using h round_trip [OF h] by simp
qed

section \<open>Independence of a clone\<close>

subsection \<open>Cells and their classes\<close>

lemma cell_at_less: "cell_at h a = Some c \<Longrightarrow> a < length h"
  by (simp add: cell_at_def split: if_splits)

lemma cell_at_append: "a < length h \<Longrightarrow> cell_at (h @ ext) a = cell_at h a"
  by (simp add: cell_at_def nth_append)

lemma cell_at_append_Some: "cell_at h a = Some c \<Longrightarrow> cell_at (h @ ext) a = Some c"
  by (simp add: cell_at_def nth_append split: if_splits)

lemma cell_at_new: "cell_at (h @ c # ext) (length h) = Some c"
  by (simp add: cell_at_def nth_append)

lemma cell_at_update:
  "cell_at (h[a := c]) x = (if x = a \<and> a < length h then Some c else cell_at h x)"
  by (simp add: cell_at_def)

lemma builder_at_cell: "builder_at h a = Some b \<longleftrightarrow> cell_at h a = Some (Builder b)"
  by (simp add: builder_at_def split: option.splits cell.splits)

lemma sort_at_cell: "sort_at h a = Some rules \<longleftrightarrow> cell_at h a = Some (SortArray rules)"
  by (simp add: sort_at_def split: option.splits cell.splits)

lemma tuple_at_cell: "tuple_at h a = Some (col, dir) \<longleftrightarrow> cell_at h a = Some (Tuple col dir)"
  by (simp add: tuple_at_def split: option.splits cell.splits)

lemma array_at_cell: "array_at h a = Some es \<longleftrightarrow> cell_at h a = Some (Array es)"
  by (simp add: array_at_def split: option.splits cell.splits)

lemma object_at_cell:
  "object_at h a = Some (own, proto) \<longleftrightarrow> cell_at h a = Some (Object own proto)"
  by (simp add: object_at_def split: option.splits cell.splits)

lemma strings_at_array: "strings_at h a = Some xs \<Longrightarrow> \<exists>es. array_at h a = Some es"
  by (simp add: strings_at_def split: option.splits)

lemma strings_at_elems: "array_at h a = Some es \<Longrightarrow> strings_at h a = those (map string_of es)"
  by (simp add: strings_at_def)

lemma those_map_string_of [simp]: "those (map (string_of \<circ> EStr) xs) = Some xs"
  by (induction xs) simp_all

lemma not_container_tuple: "tuple_at h x = Some v \<Longrightarrow> \<not> container h x"
  by (cases v) (simp add: container_def tuple_at_cell builder_at_def sort_at_def object_at_def)

lemma not_container_array: "array_at h x = Some es \<Longrightarrow> \<not> container h x"
  by (simp add: container_def array_at_cell builder_at_def sort_at_def object_at_def)

lemma not_container_strings: "strings_at h x = Some xs \<Longrightarrow> \<not> container h x"
  using strings_at_array not_container_array by blast

subsection \<open>Cells left unchanged\<close>

lemma unchanged_refl: "unchanged_outside W h h"
  by (simp add: unchanged_outside_def)

lemma unchanged_trans:
  "unchanged_outside W h h1 \<Longrightarrow> unchanged_outside W h1 h2 \<Longrightarrow> unchanged_outside W h h2"
  by (simp add: unchanged_outside_def)

lemma unchanged_mono: "unchanged_outside W h h' \<Longrightarrow> W \<subseteq> W' \<Longrightarrow> unchanged_outside W' h h'"
  by (auto simp: unchanged_outside_def)

lemma unchanged_append: "unchanged_outside W h (h @ ext)"
  by (simp add: unchanged_outside_def cell_at_append_Some)

lemma unchanged_update: "a \<in> W \<Longrightarrow> unchanged_outside W h (h[a := c])"
  by (auto simp: unchanged_outside_def cell_at_update)

lemma unchanged_update_new: "length h \<le> a \<Longrightarrow> unchanged_outside W h ((h @ ext)[a := c])"
proof -
  have "cell_at ((h @ ext)[a := c]) x = Some d" if "cell_at h x = Some d" "length h \<le> a" for x d
  proof -
    have "x \<noteq> a"
      using that cell_at_less by fastforce
    then show ?thesis
      using that(1) by (simp add: cell_at_update cell_at_append_Some)
  qed
  then show "length h \<le> a \<Longrightarrow> unchanged_outside W h ((h @ ext)[a := c])"
    by (simp add: unchanged_outside_def)
qed

lemma builder_unchanged:
  "unchanged_outside W h h' \<Longrightarrow> builder_at h x = Some b \<Longrightarrow> x \<notin> W \<Longrightarrow> builder_at h' x = Some b"
  by (simp add: unchanged_outside_def builder_at_cell)

lemma sort_unchanged:
  "unchanged_outside W h h' \<Longrightarrow> sort_at h x = Some r \<Longrightarrow> x \<notin> W \<Longrightarrow> sort_at h' x = Some r"
  by (simp add: unchanged_outside_def sort_at_cell)

lemma object_unchanged:
  "unchanged_outside W h h' \<Longrightarrow> object_at h x = Some v \<Longrightarrow> x \<notin> W \<Longrightarrow> object_at h' x = Some v"
  by (cases v) (simp add: unchanged_outside_def object_at_cell)

lemma tuple_unchanged:
  assumes "unchanged_outside W h h'" and "\<forall>x\<in>W. container h x" and "tuple_at h x = Some v"
  shows "tuple_at h' x = Some v"
proof -
  have "x \<notin> W"
    using assms(2,3) not_container_tuple by blast
  then show ?thesis
    using assms(1,3) by (cases v) (simp add: unchanged_outside_def tuple_at_cell)
qed

lemma array_unchanged:
  assumes "unchanged_outside W h h'" and "\<forall>x\<in>W. container h x" and "array_at h x = Some es"
  shows "array_at h' x = Some es"
proof -
  have "x \<notin> W"
    using assms(2,3) not_container_array by blast
  then show ?thesis
    using assms(1,3) by (simp add: unchanged_outside_def array_at_cell)
qed

lemma strings_unchanged:
  assumes "unchanged_outside W h h'" and "\<forall>x\<in>W. container h x" and "strings_at h x = Some xs"
  shows "strings_at h' x = Some xs"
proof -
  obtain es where es: "array_at h x = Some es"
    using assms(3) strings_at_array by blast
  then have "array_at h' x = Some es"
    using assms(1,2) by (rule array_unchanged [rotated 2])
  then show ?thesis
    using assms(3) es by (simp add: strings_at_elems)
qed

subsection \<open>Lists of optional values\<close>

lemma those_Some_iff:
  "those (map f xs) = Some ys \<longleftrightarrow> map f xs = map Some ys"
proof (induction xs arbitrary: ys)
  case Nil
  then show ?case by auto
next
  case (Cons x xs)
  show ?case
  proof (cases "f x")
    case None
    then show ?thesis by auto
  next
    case (Some v)
    show ?thesis
    proof (cases "those (map f xs)")
      case None
      then have "map f xs \<noteq> map Some zs" for zs
        using Cons.IH [of zs] by simp
      then show ?thesis
        using Some None by (cases ys) auto
    next
      case (Some zs)
      then have "map f xs = map Some zs"
        using Cons.IH [of zs] by simp
      then show ?thesis
        using \<open>f x = Some v\<close> Some by (cases ys) (auto simp: map_eq_Cons_conv)
    qed
  qed
qed

lemma those_defined:
  "list_all (\<lambda>x. f x \<noteq> None) xs \<Longrightarrow> \<exists>ys. those (map f xs) = Some ys"
proof (induction xs)
  case Nil
  then show ?case by simp
next
  case (Cons x xs)
  then obtain ys v where "those (map f xs) = Some ys" "f x = Some v"
    by auto
  then show ?case by simp
qed

lemma those_all:
  "those (map f xs) = Some ys \<Longrightarrow> list_all (\<lambda>x. f x \<noteq> None) xs"
  by (induction xs arbitrary: ys) (auto split: option.splits)

lemma those_cong:
  assumes "those (map f xs) = Some ys" and "\<And>x v. x \<in> set xs \<Longrightarrow> f x = Some v \<Longrightarrow> g x = Some v"
  shows "those (map g xs) = Some ys"
proof -
  have m: "map f xs = map Some ys"
    using assms(1) by (simp add: those_Some_iff)
  have "map g xs = map f xs"
  proof (rule map_cong [OF refl])
    fix x assume x: "x \<in> set xs"
    then have "f x \<in> set (map Some ys)"
      using m by (metis image_eqI set_map)
    then obtain v where "f x = Some v" by auto
    then show "g x = f x"
      using assms(2) x by simp
  qed
  then show ?thesis
    using m by (simp add: those_Some_iff)
qed

subsection \<open>What a builder reads\<close>

lemma read_entry_unchanged:
  assumes "unchanged_outside W h h'" and "\<forall>x\<in>W. container h x" and "read_entry h e = Some v"
  shows "read_entry h' e = Some v"
proof (cases e)
  case (Pair k fv)
  show ?thesis
  proof (cases fv)
    case (FStr s)
    then show ?thesis
      using assms(3) Pair by simp
  next
    case (FRef r)
    then obtain es where es: "array_at h r = Some es" and v: "v = (k, RArray es)"
      using assms(3) Pair by (auto split: option.splits)
    have "array_at h' r = Some es"
      using assms(1,2) es by (rule array_unchanged)
    then show ?thesis
      using Pair FRef v by simp
  qed
qed

lemma wf_filter_unchanged:
  assumes u: "unchanged_outside W h h'" and c: "\<forall>x\<in>W. container h x"
    and wf: "wf_filter h f" and f: "f \<notin> W"
  shows "wf_filter h' f"
proof -
  obtain own proto where o: "object_at h f = Some (own, proto)"
    using wf by (auto simp: wf_filter_def split: option.splits)
  have d: "distinct (map fst own)"
    and l: "list_all (valid_entry h) own"
    and p: "case proto of None \<Rightarrow> True | Some p \<Rightarrow> array_at h p \<noteq> None"
    using wf o by (simp_all add: wf_filter_def)
  have a: "array_at h' r \<noteq> None" if "array_at h r \<noteq> None" for r
    using that array_unchanged [OF u c] by fastforce
  have o': "object_at h' f = Some (own, proto)"
    using u o f by (rule object_unchanged)
  have "valid_entry h' e" if "valid_entry h e" for e
  proof (cases e)
    case (Pair k fv)
    then show ?thesis
      using that a by (cases fv) simp_all
  qed
  then have l': "list_all (valid_entry h') own"
    using l by (simp add: list_all_iff)
  have p': "case proto of None \<Rightarrow> True | Some p \<Rightarrow> array_at h' p \<noteq> None"
    using p a by (cases proto) simp_all
  show ?thesis
    using o' d l' p' by (simp add: wf_filter_def)
qed

lemma wf_fields_unchanged:
  assumes u: "unchanged_outside W h h'" and c: "\<forall>x\<in>W. container h x"
    and wf: "wf_fields h b" and s: "o_sortBy b \<notin> W" and f: "o_filter b \<notin> W"
  shows "wf_fields h' b"
proof -
  obtain rules where r: "sort_at h (o_sortBy b) = Some rules"
    and t: "list_all (\<lambda>t. tuple_at h t \<noteq> None) rules"
    using wf by (auto simp: wf_fields_def split: option.splits)
  obtain sb sl where sb: "strings_at h (o_searchBy b) = Some sb"
    and sl: "strings_at h (o_select b) = Some sl"
    using wf by (auto simp: wf_fields_def)
  have wff: "wf_filter h (o_filter b)"
    using wf by (simp add: wf_fields_def)
  have r': "sort_at h' (o_sortBy b) = Some rules"
    using u r s by (rule sort_unchanged)
  have t': "list_all (\<lambda>t. tuple_at h' t \<noteq> None) rules"
    using t tuple_unchanged [OF u c] unfolding list_all_iff by blast
  have sb': "strings_at h' (o_searchBy b) = Some sb"
    using u c sb by (rule strings_unchanged)
  have sl': "strings_at h' (o_select b) = Some sl"
    using u c sl by (rule strings_unchanged)
  have wff': "wf_filter h' (o_filter b)"
    using u c wff f by (rule wf_filter_unchanged)
  show ?thesis
    using r' t' sb' sl' wff' by (simp add: wf_fields_def)
qed

lemma read_fields_unchanged:
  assumes u: "unchanged_outside W h h'" and c: "\<forall>x\<in>W. container h x"
    and b: "builder_at h x = Some b" and x: "x \<notin> W" and s: "o_sortBy b \<notin> W"
    and r: "read_fields h x = Some v"
  shows "read_fields h' x = Some v"
proof -
  obtain rules sr sb sl where rs: "sort_at h (o_sortBy b) = Some rules"
    and sr: "those (map (tuple_at h) rules) = Some sr"
    and sb: "strings_at h (o_searchBy b) = Some sb"
    and sl: "strings_at h (o_select b) = Some sl"
    using r b by (auto simp: read_fields_def split: option.splits)
  have b': "builder_at h' x = Some b"
    using u b x by (rule builder_unchanged)
  have rs': "sort_at h' (o_sortBy b) = Some rules"
    using u rs s by (rule sort_unchanged)
  have sr': "those (map (tuple_at h') rules) = Some sr"
    using sr tuple_unchanged [OF u c] by (rule those_cong)
  have sb': "strings_at h' (o_searchBy b) = Some sb"
    using u c sb by (rule strings_unchanged)
  have sl': "strings_at h' (o_select b) = Some sl"
    using u c sl by (rule strings_unchanged)
  show ?thesis
    using r by (simp add: read_fields_def b b' rs rs' sr sr' sb sb' sl sl')
qed

lemma read_filter_unchanged:
  assumes u: "unchanged_outside W h h'" and c: "\<forall>x\<in>W. container h x"
    and b: "builder_at h x = Some b" and x: "x \<notin> W" and f: "o_filter b \<notin> W"
    and r: "read_filter h x = Some v"
  shows "read_filter h' x = Some v"
proof -
  obtain own proto where o: "object_at h (o_filter b) = Some (own, proto)"
    and e: "those (map (read_entry h) (Object_entries own)) = Some v"
    using r b by (auto simp: read_filter_def split: option.splits)
  have b': "builder_at h' x = Some b"
    using u b x by (rule builder_unchanged)
  have o': "object_at h' (o_filter b) = Some (own, proto)"
    using u o f by (rule object_unchanged)
  have e': "those (map (read_entry h') (Object_entries own)) = Some v"
    using e read_entry_unchanged [OF u c] by (rule those_cong)
  show ?thesis
    by (simp add: read_filter_def b' o' e')
qed

lemma read_fields_defined:
  assumes "builder_at h x = Some b" and "wf_fields h b"
  shows "\<exists>v. read_fields h x = Some v"
proof -
  obtain rules where r: "sort_at h (o_sortBy b) = Some rules"
    and t: "list_all (\<lambda>t. tuple_at h t \<noteq> None) rules"
    using assms(2) by (auto simp: wf_fields_def split: option.splits)
  obtain sb sl where sb: "strings_at h (o_searchBy b) = Some sb"
    and sl: "strings_at h (o_select b) = Some sl"
    using assms(2) by (auto simp: wf_fields_def)
  obtain sr where sr: "those (map (tuple_at h) rules) = Some sr"
    using those_defined [OF t] by blast
  show ?thesis
    by (simp add: read_fields_def assms(1) r sr sb sl)
qed

lemma read_filter_defined:
  assumes "builder_at h x = Some b" and "wf_filter h (o_filter b)"
  shows "\<exists>v. read_filter h x = Some v"
proof -
  obtain own proto where o: "object_at h (o_filter b) = Some (own, proto)"
    using assms(2) by (auto simp: wf_filter_def split: option.splits)
  have l: "list_all (valid_entry h) own"
    using assms(2) o by (simp add: wf_filter_def)
  have "read_entry h e \<noteq> None" if "e \<in> set own" for e
  proof (cases e)
    case (Pair k fv)
    have "valid_entry h e"
      using l that by (simp add: list_all_iff)
    then show ?thesis
      using Pair by (cases fv) auto
  qed
  then have "list_all (\<lambda>e. read_entry h e \<noteq> None) (Object_entries own)"
    by (simp add: list_all_iff set_Object_entries)
  then obtain v where "those (map (read_entry h) (Object_entries own)) = Some v"
    using those_defined by blast
  then show ?thesis
    by (simp add: read_filter_def assms(1) o)
qed

lemma toParams_h_defined:
  assumes "wf_builder h x"
  shows "\<exists>p. toParams_h h x = Some p"
proof -
  obtain b where b: "builder_at h x = Some b" and wf: "wf_fields h b"
    using assms by (auto simp: wf_builder_def split: option.splits)
  obtain v where v: "read_fields h x = Some v"
    using read_fields_defined [OF b wf] by blast
  have "wf_filter h (o_filter b)"
    using wf by (simp add: wf_fields_def)
  then obtain e where e: "read_filter h x = Some e"
    using read_filter_defined [OF b] by blast
  show ?thesis
    by (simp add: toParams_h_def v e)
qed

lemma container_written:
  assumes "wf_builder h a"
  shows "\<forall>x\<in>written h a. container h x"
proof -
  obtain b where b: "builder_at h a = Some b" and wf: "wf_fields h b"
    using assms by (auto simp: wf_builder_def split: option.splits)
  have "sort_at h (o_sortBy b) \<noteq> None"
    using wf by (auto simp: wf_fields_def split: option.splits)
  moreover have "object_at h (o_filter b) \<noteq> None"
    using wf by (auto simp: wf_fields_def wf_filter_def split: option.splits)
  ultimately show ?thesis
    using b by (simp add: written_def container_def)
qed

text \<open>A builder none of whose three written cells is in \<open>W\<close> stays as it is.\<close>

lemma builder_untouched:
  assumes u: "unchanged_outside W h h'" and c: "\<forall>x\<in>W. container h x"
    and wf: "wf_builder h x" and d: "written h x \<inter> W = {}"
  shows "wf_builder h' x \<and> written h' x = written h x \<and> toParams_h h' x = toParams_h h x"
proof -
  obtain b where b: "builder_at h x = Some b" and wff: "wf_fields h b"
    using wf by (auto simp: wf_builder_def split: option.splits)
  have n: "x \<notin> W" "o_sortBy b \<notin> W" "o_filter b \<notin> W"
    using d b by (auto simp: written_def)
  have b': "builder_at h' x = Some b"
    using u b n(1) by (rule builder_unchanged)
  have 1: "wf_builder h' x"
    using wf_fields_unchanged [OF u c wff n(2,3)] b' by (simp add: wf_builder_def)
  have 2: "written h' x = written h x"
    by (simp add: written_def b b')
  obtain v where v: "read_fields h x = Some v"
    using read_fields_defined [OF b wff] by blast
  have "wf_filter h (o_filter b)"
    using wff by (simp add: wf_fields_def)
  then obtain e where e: "read_filter h x = Some e"
    using read_filter_defined [OF b] by blast
  have v': "read_fields h' x = Some v"
    using u c b n(1,2) v by (rule read_fields_unchanged)
  have e': "read_filter h' x = Some e"
    using u c b n(1,3) e by (rule read_filter_unchanged)
  have 3: "toParams_h h' x = toParams_h h x"
    by (simp add: toParams_h_def v v' e e')
  show ?thesis
    using 1 2 3 by simp
qed

subsection \<open>The mutators\<close>

lemma builder_not_sort: "builder_at h a = Some b \<Longrightarrow> sort_at h a = None"
  by (simp add: builder_at_cell sort_at_def)

lemma builder_not_object: "builder_at h a = Some b \<Longrightarrow> object_at h a = None"
  by (simp add: builder_at_cell object_at_def)

lemma sort_not_object: "sort_at h a = Some r \<Longrightarrow> object_at h a = None"
  by (simp add: sort_at_cell object_at_def)

lemma wf_fields_refs:
  assumes "o_sortBy b' = o_sortBy b" and "o_searchBy b' = o_searchBy b"
    and "o_select b' = o_select b" and "o_filter b' = o_filter b"
  shows "wf_fields h b' = wf_fields h b"
  using assms by (simp add: wf_fields_def)

lemma wf_fields_sort:
  assumes "wf_fields h b"
  shows "\<exists>rules. sort_at h (o_sortBy b) = Some rules \<and> list_all (\<lambda>t. tuple_at h t \<noteq> None) rules"
proof (cases "sort_at h (o_sortBy b)")
  case None
  then show ?thesis
    using assms unfolding wf_fields_def by simp
next
  case (Some rules)
  then show ?thesis
    using assms unfolding wf_fields_def by simp
qed

lemma wf_fields_rest:
  assumes "wf_fields h b"
  shows "strings_at h (o_searchBy b) \<noteq> None" and "strings_at h (o_select b) \<noteq> None"
    and "wf_filter h (o_filter b)"
  using assms unfolding wf_fields_def by blast+

lemma wf_filter_object: "wf_filter h f \<Longrightarrow> \<exists>own proto. object_at h f = Some (own, proto)"
  unfolding wf_filter_def by (cases "object_at h f") auto

lemma wf_fields_intro:
  assumes "sort_at h (o_sortBy b) = Some rules" and "list_all (\<lambda>t. tuple_at h t \<noteq> None) rules"
    and "strings_at h (o_searchBy b) \<noteq> None" and "strings_at h (o_select b) \<noteq> None"
    and "wf_filter h (o_filter b)"
  shows "wf_fields h b"
  using assms unfolding wf_fields_def by simp

text \<open>A mutator that assigns a number, a string or a flag.\<close>

lemma assign_field:
  assumes b: "builder_at h a = Some b" and wf: "wf_fields h b"
    and s: "o_sortBy b' = o_sortBy b" "o_searchBy b' = o_searchBy b"
      "o_select b' = o_select b" "o_filter b' = o_filter b"
  shows "unchanged_outside (written h a) h (h[a := Builder b'])
         \<and> wf_builder (h[a := Builder b']) a
         \<and> written (h[a := Builder b']) a = written h a"
proof -
  let ?h = "h[a := Builder b']"
  obtain rules where r: "sort_at h (o_sortBy b) = Some rules"
    using wf_fields_sort [OF wf] by blast
  obtain own proto where o: "object_at h (o_filter b) = Some (own, proto)"
    using wf_fields_rest(3) [OF wf] wf_filter_object by blast
  have a: "a < length h"
    using b by (simp add: builder_at_cell cell_at_less)
  have n: "o_sortBy b \<noteq> a" "o_filter b \<noteq> a"
    using b r o builder_not_sort [of h a b] builder_not_object [of h a b] by auto
  have b': "builder_at ?h a = Some b'"
    using a by (simp add: builder_at_cell cell_at_update)
  have u: "unchanged_outside {a} h ?h"
    by (rule unchanged_update) simp
  have c: "\<forall>x\<in>{a}. container h x"
    using b by (simp add: container_def)
  have "wf_fields ?h b"
    using wf_fields_unchanged [OF u c wf] n by simp
  then have "wf_fields ?h b'"
    using wf_fields_refs [OF s, of ?h] by simp
  then have 1: "wf_builder ?h a"
    using b' by (simp add: wf_builder_def)
  have 2: "written ?h a = written h a"
    using b b' s by (simp add: written_def)
  have 3: "unchanged_outside (written h a) h ?h"
    using unchanged_mono [OF u, of "written h a"] b by (simp add: written_def)
  show ?thesis
    using 1 2 3 by simp
qed

text \<open>\<open>searchBy\<close> and \<open>select\<close>: a new array, then the assignment of its reference.\<close>

lemma assign_array:
  assumes b: "builder_at h a = Some b" and wf: "wf_fields h b"
    and s: "o_sortBy b' = o_sortBy b" "o_filter b' = o_filter b"
    and r: "(o_searchBy b' = length h \<and> o_select b' = o_select b)
            \<or> (o_select b' = length h \<and> o_searchBy b' = o_searchBy b)"
  shows "unchanged_outside (written h a) h ((h @ [Array (map EStr xs)])[a := Builder b'])
         \<and> wf_builder ((h @ [Array (map EStr xs)])[a := Builder b']) a
         \<and> written ((h @ [Array (map EStr xs)])[a := Builder b']) a = written h a"
proof -
  let ?h1 = "h @ [Array (map EStr xs)]"
  let ?h = "?h1[a := Builder b']"
  obtain rules where rs: "sort_at h (o_sortBy b) = Some rules"
    and ts: "list_all (\<lambda>t. tuple_at h t \<noteq> None) rules"
    using wf_fields_sort [OF wf] by blast
  obtain own proto where o: "object_at h (o_filter b) = Some (own, proto)"
    using wf_fields_rest(3) [OF wf] wf_filter_object by blast
  have a: "a < length h"
    using b by (simp add: builder_at_cell cell_at_less)
  have n: "o_sortBy b \<noteq> a" "o_filter b \<noteq> a"
    using b rs o builder_not_sort [of h a b] builder_not_object [of h a b] by auto
  have b': "builder_at ?h a = Some b'"
    using a by (simp add: builder_at_cell cell_at_update)
  have "unchanged_outside {a} ?h1 ?h"
    by (rule unchanged_update) simp
  then have u: "unchanged_outside {a} h ?h"
    using unchanged_append by (rule unchanged_trans [rotated])
  have c: "\<forall>x\<in>{a}. container h x"
    using b by (simp add: container_def)
  have w: "wf_fields ?h b"
    using wf_fields_unchanged [OF u c wf] n by simp
  have "cell_at ?h (length h) = Some (Array (map EStr xs))"
    using a by (simp add: cell_at_update cell_at_new)
  then have new: "strings_at ?h (length h) = Some xs"
    by (simp add: strings_at_def array_at_def)
  have w': "sort_at ?h (o_sortBy b) = Some rules" "list_all (\<lambda>t. tuple_at ?h t \<noteq> None) rules"
      "strings_at ?h (o_searchBy b) \<noteq> None" "strings_at ?h (o_select b) \<noteq> None"
      "wf_filter ?h (o_filter b)"
  proof -
    show "sort_at ?h (o_sortBy b) = Some rules"
      using sort_unchanged [OF u rs] n(1) by simp
    show "list_all (\<lambda>t. tuple_at ?h t \<noteq> None) rules"
      using ts tuple_unchanged [OF u c] unfolding list_all_iff by blast
  qed (use wf_fields_rest [OF w] in simp_all)
  have "wf_fields ?h b'"
  proof (rule wf_fields_intro)
    show "sort_at ?h (o_sortBy b') = Some rules"
      using w'(1) s by simp
    show "list_all (\<lambda>t. tuple_at ?h t \<noteq> None) rules"
      by (rule w'(2))
    show "strings_at ?h (o_searchBy b') \<noteq> None"
      using r w'(3) new by auto
    show "strings_at ?h (o_select b') \<noteq> None"
      using r w'(4) new by auto
    show "wf_filter ?h (o_filter b')"
      using w'(5) s by simp
  qed
  then have 1: "wf_builder ?h a"
    using b' by (simp add: wf_builder_def)
  have 2: "written ?h a = written h a"
    using b b' s by (simp add: written_def)
  have 3: "unchanged_outside (written h a) h ?h"
    using unchanged_mono [OF u, of "written h a"] b by (simp add: written_def)
  show ?thesis
    using 1 2 3 by simp
qed

text \<open>\<open>sortBy\<close>: a new tuple, pushed onto the array in place.\<close>

lemma push_rule:
  assumes b: "builder_at h a = Some b" and wf: "wf_fields h b"
    and r: "sort_at h (o_sortBy b) = Some rules"
  shows "unchanged_outside (written h a) h
           ((h @ [Tuple col dir])[o_sortBy b := SortArray (rules @ [length h])])
         \<and> wf_builder ((h @ [Tuple col dir])[o_sortBy b := SortArray (rules @ [length h])]) a
         \<and> written ((h @ [Tuple col dir])[o_sortBy b := SortArray (rules @ [length h])]) a
             = written h a"
proof -
  let ?s = "o_sortBy b"
  let ?h1 = "h @ [Tuple col dir]"
  let ?h = "?h1[?s := SortArray (rules @ [length h])]"
  have t: "list_all (\<lambda>t. tuple_at h t \<noteq> None) rules"
    using wf_fields_sort [OF wf] r by simp
  have sb: "strings_at h (o_searchBy b) \<noteq> None" and sl: "strings_at h (o_select b) \<noteq> None"
    and wff: "wf_filter h (o_filter b)"
    using wf_fields_rest [OF wf] by simp_all
  obtain own proto where o: "object_at h (o_filter b) = Some (own, proto)"
    using wff wf_filter_object by blast
  have s: "?s < length h"
    using r by (simp add: sort_at_cell cell_at_less)
  have n: "a \<noteq> ?s" "o_filter b \<noteq> ?s"
    using b r o builder_not_sort [of h a b] sort_not_object [of h ?s rules] by auto
  have "unchanged_outside {?s} ?h1 ?h"
    by (rule unchanged_update) simp
  then have u: "unchanged_outside {?s} h ?h"
    using unchanged_append by (rule unchanged_trans [rotated])
  have c: "\<forall>x\<in>{?s}. container h x"
    using r by (simp add: container_def)
  have b': "builder_at ?h a = Some b"
    using builder_unchanged [OF u b] n(1) by simp
  have r': "sort_at ?h ?s = Some (rules @ [length h])"
    using s by (simp add: sort_at_cell cell_at_update)
  have old: "list_all (\<lambda>t. tuple_at ?h t \<noteq> None) rules"
    using t tuple_unchanged [OF u c] unfolding list_all_iff by blast
  have "cell_at ?h (length h) = Some (Tuple col dir)"
    using s by (simp add: cell_at_update cell_at_new)
  then have new: "tuple_at ?h (length h) \<noteq> None"
    by (simp add: tuple_at_def)
  have sb': "strings_at ?h (o_searchBy b) \<noteq> None" "strings_at ?h (o_select b) \<noteq> None"
    using sb sl strings_unchanged [OF u c] by auto
  have wff': "wf_filter ?h (o_filter b)"
    using wf_filter_unchanged [OF u c wff] n(2) by simp
  have "wf_fields ?h b"
    using r' _ sb' wff' by (rule wf_fields_intro) (use old new in simp)
  then have 1: "wf_builder ?h a"
    using b' by (simp add: wf_builder_def)
  have 2: "written ?h a = written h a"
    using b b' by (simp add: written_def)
  have 3: "unchanged_outside (written h a) h ?h"
    using unchanged_mono [OF u, of "written h a"] b by (simp add: written_def)
  show ?thesis
    using 1 2 3 by simp
qed

subsection \<open>\<open>filter\<close> on the store\<close>

lemma list_all_obj_set:
  "list_all P obj \<Longrightarrow> P (k, v) \<Longrightarrow> list_all P (obj_set k v obj)"
  by (induction k v obj rule: obj_set.induct) auto

lemma valid_entry_key: "valid_entry h (k, v) = valid_entry h (k', v)"
  by (cases v) simp_all

lemma valid_entry_unchanged:
  assumes "unchanged_outside W h h'" and "\<forall>x\<in>W. container h x" and "valid_entry h e"
  shows "valid_entry h' e"
proof (cases e)
  case (Pair k fv)
  show ?thesis
  proof (cases fv)
    case (FStr s)
    then show ?thesis using Pair by simp
  next
    case (FRef r)
    then obtain es where "array_at h r = Some es"
      using assms(3) Pair by auto
    then have "array_at h' r = Some es"
      using assms(1,2) array_unchanged by blast
    then show ?thesis
      using Pair FRef by simp
  qed
qed

lemma from_array_Arr: "from_array ap es (Some p) key = Arr r \<Longrightarrow> r = p"
  by (simp add: from_array_def from_Object_prototype_def split: option.splits if_splits)

lemma from_Object_prototype_None: "from_Object_prototype None key \<noteq> Arr r"
  by (simp add: from_Object_prototype_def)

lemma read_property_defined:
  assumes wf: "wf_filter h f" and o: "object_at h f = Some (own, proto)"
  shows "\<exists>e. read_property ap h own proto key = Some e \<and> (\<forall>r. e = Arr r \<longrightarrow> array_at h r \<noteq> None)"
proof -
  have l: "list_all (valid_entry h) own"
    and p: "case proto of None \<Rightarrow> True | Some p \<Rightarrow> array_at h p \<noteq> None"
    using wf o by (simp_all add: wf_filter_def)
  show ?thesis
  proof (cases "obj_get own key")
    case None
    show ?thesis
    proof (cases proto)
      case N: None
      then show ?thesis
        using None by (simp add: read_property_def from_Object_prototype_None)
    next
      case (Some q)
      then obtain es where es: "array_at h q = Some es"
        using p by auto
      have "read_property ap h own proto key = Some (from_array ap es (Some q) key)"
        using None Some es by (simp add: read_property_def)
      moreover have "array_at h r \<noteq> None" if "from_array ap es (Some q) key = Arr r" for r
        using that es from_array_Arr by fastforce
      ultimately show ?thesis
        by simp
    qed
  next
    case (Some fv)
    show ?thesis
    proof (cases fv)
      case (FStr s)
      then show ?thesis
        using Some by (simp add: read_property_def)
    next
      case (FRef r)
      then have "(key, FRef r) \<in> set own"
        using Some by (simp add: obj_get_def map_of_SomeD)
      then have "valid_entry h (key, FRef r)"
        using l unfolding list_all_iff by blast
      then show ?thesis
        using Some FRef by (simp add: read_property_def)
    qed
  qed
qed

lemma array_at_new: "array_at (h @ [Array es]) (length h) = Some es"
  by (simp add: array_at_cell cell_at_new)

lemma filter_value_defined:
  assumes e: "\<forall>r. existing = Arr r \<longrightarrow> array_at h r \<noteq> None"
    and t: "token_array h token = Some next"
  shows "\<exists>v h1. filter_value h existing token next = Some (v, h1)
           \<and> (h1 = h \<or> (\<exists>es. h1 = h @ [Array es])) \<and> (\<forall>k. valid_entry h1 (k, v))"
proof (cases "truthy_h existing")
  case True
  obtain es where es: "spread h existing = Some es"
    using e by (cases existing) (auto simp: spread_def)
  let ?h1 = "h @ [Array (es @ map EStr next)]"
  have "filter_value h existing token next = Some (FRef (length h), ?h1)"
    using True es by (simp add: filter_value_def alloc_def)
  moreover have "valid_entry ?h1 (k, FRef (length h))" for k
    by (simp add: array_at_new)
  ultimately show ?thesis
    by blast
next
  case False
  show ?thesis
  proof (cases "length next = 1")
    case True
    then show ?thesis
      using False by (simp add: filter_value_def)
  next
    case many: False
    show ?thesis
    proof (cases token)
      case (TString s)
      then show ?thesis
        using False many by (simp add: filter_value_def)
    next
      case (TArray r)
      then have "strings_at h r = Some next"
        using t by (simp add: token_array_def)
      then have "array_at h r \<noteq> None"
        using strings_at_array by fastforce
      then show ?thesis
        using False many TArray by (simp add: filter_value_def)
    qed
  qed
qed

text \<open>Assigning a new state to the filter object of a builder, after allocations.\<close>

lemma assign_object:
  assumes b: "builder_at h a = Some b" and wf: "wf_fields h b"
    and d: "distinct (map fst own')" and l: "list_all (valid_entry (h @ ext)) own'"
    and p: "case proto' of None \<Rightarrow> True | Some p \<Rightarrow> array_at (h @ ext) p \<noteq> None"
  shows "unchanged_outside (written h a) h ((h @ ext)[o_filter b := Object own' proto'])
         \<and> wf_builder ((h @ ext)[o_filter b := Object own' proto']) a
         \<and> written ((h @ ext)[o_filter b := Object own' proto']) a = written h a"
proof -
  let ?f = "o_filter b"
  let ?h1 = "h @ ext"
  let ?h = "?h1[?f := Object own' proto']"
  obtain rules where r: "sort_at h (o_sortBy b) = Some rules"
    and t: "list_all (\<lambda>t. tuple_at h t \<noteq> None) rules"
    using wf_fields_sort [OF wf] by blast
  have sb: "strings_at h (o_searchBy b) \<noteq> None" and sl: "strings_at h (o_select b) \<noteq> None"
    and wff: "wf_filter h ?f"
    using wf_fields_rest [OF wf] by simp_all
  obtain own proto where o: "object_at h ?f = Some (own, proto)"
    using wff wf_filter_object by blast
  have f: "?f < length h"
    using o by (simp add: object_at_cell cell_at_less)
  have n: "a \<noteq> ?f" "o_sortBy b \<noteq> ?f"
    using b r o builder_not_object [of h a b] sort_not_object [of h "o_sortBy b" rules] by auto
  have u2: "unchanged_outside {?f} ?h1 ?h"
    by (rule unchanged_update) simp
  then have u: "unchanged_outside {?f} h ?h"
    using unchanged_append by (rule unchanged_trans [rotated])
  have c: "\<forall>x\<in>{?f}. container h x"
    using o by (simp add: container_def)
  have "object_at ?h1 ?f = Some (own, proto)"
    using o by (simp add: object_at_cell cell_at_append_Some)
  then have c1: "\<forall>x\<in>{?f}. container ?h1 x"
    by (simp add: container_def)
  have b': "builder_at ?h a = Some b"
    using builder_unchanged [OF u b] n(1) by simp
  have r': "sort_at ?h (o_sortBy b) = Some rules"
    using sort_unchanged [OF u r] n(2) by simp
  have t': "list_all (\<lambda>t. tuple_at ?h t \<noteq> None) rules"
    using t tuple_unchanged [OF u c] unfolding list_all_iff by blast
  have s': "strings_at ?h (o_searchBy b) \<noteq> None" "strings_at ?h (o_select b) \<noteq> None"
    using sb sl strings_unchanged [OF u c] by auto
  have o': "object_at ?h ?f = Some (own', proto')"
    using f by (simp add: object_at_cell cell_at_update)
  have l': "list_all (valid_entry ?h) own'"
    using l valid_entry_unchanged [OF u2 c1] unfolding list_all_iff by blast
  have p': "case proto' of None \<Rightarrow> True | Some p \<Rightarrow> array_at ?h p \<noteq> None"
  proof (cases proto')
    case None
    then show ?thesis by simp
  next
    case (Some q)
    then obtain es where "array_at ?h1 q = Some es"
      using p by auto
    then have "array_at ?h q = Some es"
      using u2 c1 array_unchanged by blast
    then show ?thesis
      using Some by simp
  qed
  have "wf_filter ?h ?f"
    using o' d l' p' by (simp add: wf_filter_def)
  then have "wf_fields ?h b"
    using r' t' s' by (intro wf_fields_intro)
  then have 1: "wf_builder ?h a"
    using b' by (simp add: wf_builder_def)
  have 2: "written ?h a = written h a"
    using b b' by (simp add: written_def)
  have 3: "unchanged_outside (written h a) h ?h"
    using unchanged_mono [OF u, of "written h a"] b by (simp add: written_def)
  show ?thesis
    using 1 2 3 by simp
qed

lemma only_allocated:
  assumes "wf_builder h a"
  shows "unchanged_outside (written h a) h (h @ ext) \<and> wf_builder (h @ ext) a
         \<and> written (h @ ext) a = written h a"
proof -
  have u: "unchanged_outside {} h (h @ ext)"
    by (rule unchanged_append)
  have "wf_builder (h @ ext) a \<and> written (h @ ext) a = written h a"
    using builder_untouched [OF u _ assms] by simp
  then show ?thesis
    using unchanged_append by simp
qed

lemma filter_frame:
  assumes wfb: "wf_builder h a" and t: "token_array h token \<noteq> None"
  shows "\<exists>h'. filter_h ap column token a h = Some h' \<and> unchanged_outside (written h a) h h'
           \<and> wf_builder h' a \<and> written h' a = written h a"
proof -
  obtain b where b: "builder_at h a = Some b" and wf: "wf_fields h b"
    using wfb by (auto simp: wf_builder_def split: option.splits)
  let ?f = "o_filter b"
  have wff: "wf_filter h ?f"
    using wf_fields_rest [OF wf] by simp
  obtain own proto where o: "object_at h ?f = Some (own, proto)"
    using wff wf_filter_object by blast
  have d: "distinct (map fst own)" and l: "list_all (valid_entry h) own"
    and p: "case proto of None \<Rightarrow> True | Some p \<Rightarrow> array_at h p \<noteq> None"
    using wff o by (simp_all add: wf_filter_def)
  obtain existing where e: "read_property ap h own proto column = Some existing"
    and ea: "\<forall>r. existing = Arr r \<longrightarrow> array_at h r \<noteq> None"
    using read_property_defined [OF wff o] by blast
  obtain "next" where nx: "token_array h token = Some next"
    using t by auto
  obtain v h1 where fv: "filter_value h existing token next = Some (v, h1)"
    and ext: "h1 = h \<or> (\<exists>es. h1 = h @ [Array es])" and val: "\<forall>k. valid_entry h1 (k, v)"
    using filter_value_defined [OF ea nx] by blast
  obtain ext' where h1: "h1 = h @ ext'"
    using ext by auto
  have eq: "filter_h ap column token a h = Some (assign_property ?f own proto column v h1)"
    by (simp add: filter_h_def b o e nx fv)
  have u1: "unchanged_outside {} h h1"
    unfolding h1 by (rule unchanged_append)
  have l1: "list_all (valid_entry h1) own"
    using l valid_entry_unchanged [OF u1] unfolding list_all_iff by blast
  have p1: "case proto of None \<Rightarrow> True | Some p \<Rightarrow> array_at h1 p \<noteq> None"
  proof (cases proto)
    case None
    then show ?thesis by simp
  next
    case (Some q)
    then obtain es where "array_at h q = Some es"
      using p by auto
    then have "array_at h1 q = Some es"
      using array_unchanged [OF u1] by simp
    then show ?thesis
      using Some by simp
  qed
  let ?h = "assign_property ?f own proto column v h1"
  have "unchanged_outside (written h a) h ?h \<and> wf_builder ?h a \<and> written ?h a = written h a"
  proof (cases "column = js ''__proto__''")
    case True
    show ?thesis
    proof (cases v)
      case (FStr s)
      then have "?h = h @ ext'"
        using True h1 by (simp add: assign_property_def)
      then show ?thesis
        using only_allocated [OF wfb] by simp
    next
      case (FRef r)
      then have h: "?h = (h @ ext')[?f := Object own (Some r)]"
        using True h1 by (simp add: assign_property_def)
      have "array_at (h @ ext') r \<noteq> None"
        using val FRef h1 by auto
      then show ?thesis
        unfolding h using l1 [unfolded h1] d by (intro assign_object [OF b wf]) simp_all
    qed
  next
    case False
    then have h: "?h = (h @ ext')[?f := Object (obj_set column v own) proto]"
      using h1 by (simp add: assign_property_def)
    have "list_all (valid_entry (h @ ext')) (obj_set column v own)"
      using l1 val h1 by (simp add: list_all_obj_set)
    then show ?thesis
      unfolding h using d p1 [unfolded h1]
      by (intro assign_object [OF b wf]) (simp_all add: distinct_obj_set)
  qed
  then show ?thesis
    using eq by simp
qed

subsection \<open>Every call\<close>

lemma apply_h_frame:
  assumes wfb: "wf_builder h a" and ty: "typed h m"
  shows "\<exists>h'. apply_h ap m a h = Some h' \<and> unchanged_outside (written h a) h h'
           \<and> wf_builder h' a \<and> written h' a = written h a"
proof -
  obtain b where b: "builder_at h a = Some b" and wf: "wf_fields h b"
    using wfb by (auto simp: wf_builder_def split: option.splits)
  show ?thesis
  proof (cases m)
    case (HPage n)
    then show ?thesis
      using assign_field [OF b wf, of "b\<lparr>o_page := Some n\<rparr>"] by (simp add: page_h_def b)
  next
    case (HLimit n)
    then show ?thesis
      using assign_field [OF b wf, of "b\<lparr>o_limit := Some n\<rparr>"] by (simp add: limit_h_def b)
  next
    case (HSortBy column direction)
    obtain rules where r: "sort_at h (o_sortBy b) = Some rules"
      using wf_fields_sort [OF wf] by blast
    show ?thesis
      using HSortBy push_rule [OF b wf r] by (simp add: sortBy_h_def b r alloc_def)
  next
    case (HSearch s)
    then show ?thesis
      using assign_field [OF b wf, of "b\<lparr>o_search := Some s\<rparr>"] by (simp add: search_h_def b)
  next
    case (HSearchBy columns)
    then obtain xs where xs: "strings_at h columns = Some xs"
      using ty by auto
    show ?thesis
      using HSearchBy assign_array [OF b wf, of "b\<lparr>o_searchBy := length h\<rparr>" xs]
      by (simp add: searchBy_h_def b xs alloc_def)
  next
    case (HSelect columns)
    then obtain xs where xs: "strings_at h columns = Some xs"
      using ty by auto
    show ?thesis
      using HSelect assign_array [OF b wf, of "b\<lparr>o_select := length h\<rparr>" xs]
      by (simp add: select_h_def b xs alloc_def)
  next
    case (HFilter column token)
    have "token_array h token \<noteq> None"
      using ty HFilter by (cases token) (simp_all add: token_array_def)
    then show ?thesis
      using HFilter filter_frame [OF wfb] by simp
  next
    case (HCursor c)
    then show ?thesis
      using assign_field [OF b wf, of "b\<lparr>o_cursor := Some c\<rparr>"] by (simp add: cursor_h_def b)
  next
    case (HWithDeleted v)
    then show ?thesis
      using assign_field [OF b wf, of "b\<lparr>o_withDeleted := Some v\<rparr>"]
      by (simp add: withDeleted_h_def b)
  qed
qed

subsection \<open>Allocation only\<close>

lemma tuple_at_append: "tuple_at h t = Some v \<Longrightarrow> tuple_at (h @ ext) t = Some v"
  by (cases v) (simp add: tuple_at_cell cell_at_append_Some)

lemma array_at_append: "array_at h r = Some es \<Longrightarrow> array_at (h @ ext) r = Some es"
  by (simp add: array_at_cell cell_at_append_Some)

lemma sort_at_append: "sort_at h r = Some rules \<Longrightarrow> sort_at (h @ ext) r = Some rules"
  by (simp add: sort_at_cell cell_at_append_Some)

lemma object_at_append: "object_at h r = Some v \<Longrightarrow> object_at (h @ ext) r = Some v"
  by (cases v) (simp add: object_at_cell cell_at_append_Some)

lemma strings_at_append: "strings_at h r = Some xs \<Longrightarrow> strings_at (h @ ext) r = Some xs"
  using strings_unchanged [OF unchanged_append, of "{}"] by simp

lemma read_entry_append: "read_entry h e = Some v \<Longrightarrow> read_entry (h @ ext) e = Some v"
  using read_entry_unchanged [OF unchanged_append, of "{}"] by simp

lemma those_tuples_append:
  "those (map (tuple_at h) ts) = Some vs \<Longrightarrow> those (map (tuple_at (h @ ext)) ts) = Some vs"
  by (erule those_cong) (rule tuple_at_append)

lemma those_entries_append:
  "those (map (read_entry h) es) = Some vs \<Longrightarrow> those (map (read_entry (h @ ext)) es) = Some vs"
  by (erule those_cong) (rule read_entry_append)

lemma tuple_at_new: "tuple_at (h @ Tuple col dir # ext) (length h) = Some (col, dir)"
  by (simp add: tuple_at_cell cell_at_new)

lemma array_at_new': "array_at (h @ Array es # ext) (length h) = Some es"
  by (simp add: array_at_cell cell_at_new)

lemma read_entry_valid: "read_entry h e = Some v \<Longrightarrow> valid_entry h e"
proof (cases e)
  case (Pair k fv)
  assume "read_entry h e = Some v"
  then show ?thesis
    using Pair by (cases fv) (auto split: option.splits)
qed

subsection \<open>The copies made by \<open>clone\<close>\<close>

lemma all_new_mono:
  "list_all (\<lambda>x. n \<le> x) xs \<Longrightarrow> m \<le> n \<Longrightarrow> list_all (\<lambda>x. (m :: nat) \<le> x) xs"
  by (auto simp: list_all_iff)

lemma copy_tuples_spec:
  assumes "those (map (tuple_at h) ts) = Some vs"
  shows "\<exists>ts' ext. copy_tuples ts h = Some (ts', h @ ext)
           \<and> those (map (tuple_at (h @ ext)) ts') = Some vs
           \<and> list_all (\<lambda>t. length h \<le> t) ts'"
  using assms
proof (induction ts arbitrary: h vs)
  case Nil
  then have "copy_tuples [] h = Some ([], h @ []) \<and> those (map (tuple_at (h @ [])) []) = Some vs
               \<and> list_all (\<lambda>t. length h \<le> t) []"
    by simp
  then show ?case by blast
next
  case (Cons t ts)
  obtain col dir vs' where t: "tuple_at h t = Some (col, dir)"
    and r: "those (map (tuple_at h) ts) = Some vs'" and vs: "vs = (col, dir) # vs'"
    using Cons.prems by (auto split: option.splits)
  let ?h1 = "h @ [Tuple col dir]"
  have "those (map (tuple_at ?h1) ts) = Some vs'"
    using r by (rule those_tuples_append)
  then obtain ts' ext where c: "copy_tuples ts ?h1 = Some (ts', ?h1 @ ext)"
    and v: "those (map (tuple_at (?h1 @ ext)) ts') = Some vs'"
    and n: "list_all (\<lambda>t. length ?h1 \<le> t) ts'"
    using Cons.IH by blast
  have 1: "copy_tuples (t # ts) h = Some (length h # ts', h @ (Tuple col dir # ext))"
    using t c by (simp add: alloc_def)
  have 2: "those (map (tuple_at (h @ (Tuple col dir # ext))) (length h # ts')) = Some vs"
    using v vs by (simp add: tuple_at_new)
  have 3: "list_all (\<lambda>t. length h \<le> t) (length h # ts')"
    using all_new_mono [OF n, of "length h"] by simp
  show ?case
    using 1 2 3 by blast
qed

lemma copy_entries_spec:
  assumes "those (map (read_entry h) es) = Some vs"
  shows "\<exists>es' ext. copy_entries es h = Some (es', h @ ext) \<and> map fst es' = map fst es
           \<and> those (map (read_entry (h @ ext)) es') = Some vs
           \<and> list_all (\<lambda>r. length h \<le> r) (refs_of es')"
  using assms
proof (induction es arbitrary: h vs)
  case Nil
  then have "copy_entries [] h = Some ([], h @ []) \<and> map fst [] = map fst ([] :: (jsstring \<times> fval) list)
               \<and> those (map (read_entry (h @ [])) []) = Some vs
               \<and> list_all (\<lambda>r. length h \<le> r) (refs_of [])"
    by simp
  then show ?case by blast
next
  case (Cons e es)
  obtain k fv where e: "e = (k, fv)" by (cases e)
  obtain v vs' where v: "read_entry h e = Some v"
    and r: "those (map (read_entry h) es) = Some vs'" and vs: "vs = v # vs'"
    using Cons.prems by (auto split: option.splits)
  show ?case
  proof (cases fv)
    case (FStr s)
    obtain es' ext where c: "copy_entries es h = Some (es', h @ ext)"
      and m: "map fst es' = map fst es"
      and w: "those (map (read_entry (h @ ext)) es') = Some vs'"
      and n: "list_all (\<lambda>r. length h \<le> r) (refs_of es')"
      using Cons.IH [OF r] by blast
    have 1: "copy_entries (e # es) h = Some ((k, FStr s) # es', h @ ext)"
      using c e FStr by simp
    have 2: "map fst ((k, FStr s) # es') = map fst (e # es)"
      using m e by simp
    have 3: "those (map (read_entry (h @ ext)) ((k, FStr s) # es')) = Some vs"
      using w v vs e FStr by simp
    have 4: "list_all (\<lambda>r. length h \<le> r) (refs_of ((k, FStr s) # es'))"
      using n by simp
    show ?thesis
      using 1 2 3 4 by blast
  next
    case (FRef r')
    then obtain xs where xs: "array_at h r' = Some xs" and vv: "v = (k, RArray xs)"
      using v e by (auto split: option.splits)
    let ?h1 = "h @ [Array xs]"
    have "those (map (read_entry ?h1) es) = Some vs'"
      using r by (rule those_entries_append)
    then obtain es' ext where c: "copy_entries es ?h1 = Some (es', ?h1 @ ext)"
      and m: "map fst es' = map fst es"
      and w: "those (map (read_entry (?h1 @ ext)) es') = Some vs'"
      and n: "list_all (\<lambda>r. length ?h1 \<le> r) (refs_of es')"
      using Cons.IH by blast
    have 1: "copy_entries (e # es) h = Some ((k, FRef (length h)) # es', h @ (Array xs # ext))"
      using c e FRef xs by (simp add: alloc_def)
    have 2: "map fst ((k, FRef (length h)) # es') = map fst (e # es)"
      using m e by simp
    have 3: "those (map (read_entry (h @ (Array xs # ext))) ((k, FRef (length h)) # es')) = Some vs"
      using w vs vv by (simp add: array_at_new')
    have 4: "list_all (\<lambda>r. length h \<le> r) (refs_of ((k, FRef (length h)) # es'))"
      using all_new_mono [OF n, of "length h"] by simp
    show ?thesis
      using 1 2 3 4 by blast
  qed
qed

lemma copy_sort_spec:
  assumes "sort_at h r = Some rules" and "those (map (tuple_at h) rules) = Some vs"
  shows "\<exists>s ext rules'. copy_sort r h = Some (s, h @ ext) \<and> length h \<le> s
           \<and> sort_at (h @ ext) s = Some rules'
           \<and> those (map (tuple_at (h @ ext)) rules') = Some vs
           \<and> list_all (\<lambda>t. length h \<le> t) rules'"
proof -
  obtain rules' ext where c: "copy_tuples rules h = Some (rules', h @ ext)"
    and v: "those (map (tuple_at (h @ ext)) rules') = Some vs"
    and n: "list_all (\<lambda>t. length h \<le> t) rules'"
    using copy_tuples_spec [OF assms(2)] by blast
  let ?s = "length (h @ ext)"
  let ?e = "ext @ [SortArray rules']"
  have 1: "copy_sort r h = Some (?s, h @ ?e)"
    using assms(1) c by (simp add: copy_sort_def alloc_def)
  have 2: "sort_at (h @ ?e) ?s = Some rules'"
    using cell_at_new [of "h @ ext" "SortArray rules'" "[]"] by (simp add: sort_at_cell)
  have 3: "those (map (tuple_at (h @ ?e)) rules') = Some vs"
    using those_tuples_append [OF v, of "[SortArray rules']"] by simp
  have 4: "length h \<le> ?s"
    by simp
  show ?thesis
    using 1 2 3 4 n by blast
qed

lemma copy_array_spec:
  assumes "array_at h r = Some es"
  shows "copy_array r h = Some (length h, h @ [Array es])"
  using assms by (simp add: copy_array_def alloc_def)

lemma rebuild_entries:
  "distinct (map fst es) \<Longrightarrow> map (\<lambda>k. (k, the (map_of es k))) (map fst es) = es"
proof -
  assume d: "distinct (map fst es)"
  have "(fst e, the (map_of es (fst e))) = e" if "e \<in> set es" for e
  proof -
    have "map_of es (fst e) = Some (snd e)"
      using d that by (cases e) simp
    then show ?thesis by simp
  qed
  then show ?thesis
    by (simp add: map_idI comp_def)
qed

lemma Object_entries_map_entry:
  "Object_entries (map (\<lambda>e. (fst e, g e)) obj) = map (\<lambda>e. (fst e, g e)) (Object_entries obj)"
  by (simp add: Object_entries_alt filter_map comp_def sort_key_map)

lemma Object_entries_fixed:
  assumes m: "map fst es = map fst (Object_entries obj)" and d: "distinct (map fst obj)"
  shows "Object_entries es = es"
proof -
  let ?E = "Object_entries obj"
  let ?g = "\<lambda>e :: jsstring \<times> 'b. the (map_of es (fst e))"
  have de: "distinct (map fst es)"
    using m d by (simp add: distinct_Object_entries)
  have "map (\<lambda>k. (k, the (map_of es k))) (map fst ?E) = es"
    using rebuild_entries [OF de] m by simp
  then have es: "es = map (\<lambda>e. (fst e, ?g e)) ?E"
    by (simp add: comp_def)
  have "Object_entries (map (\<lambda>e. (fst e, ?g e)) ?E) = map (\<lambda>e. (fst e, ?g e)) (Object_entries ?E)"
    by (rule Object_entries_map_entry)
  also have "\<dots> = map (\<lambda>e. (fst e, ?g e)) ?E"
    by (simp only: Object_entries_idem)
  finally show ?thesis
    using es by simp
qed

lemma Object_fromEntries_distinct:
  assumes "distinct (map fst es)"
  shows "Object_fromEntries es = es"
proof -
  have "fold (\<lambda>(c, v) r. obj_set c v r) es [] = [] @ map (\<lambda>(c, v). (c, v)) es"
    using assms by (intro fold_obj_set_fresh [where g = "\<lambda>c. c"]) (simp_all add: inj_def)
  then show ?thesis
    by (simp add: Object_fromEntries_def)
qed

lemma copy_filter_spec:
  assumes o: "object_at h r = Some (own, proto)" and d: "distinct (map fst own)"
    and v: "those (map (read_entry h) (Object_entries own)) = Some vs"
  shows "\<exists>f ext own'. copy_filter r h = Some (f, h @ ext) \<and> length h \<le> f
           \<and> object_at (h @ ext) f = Some (own', None) \<and> wf_filter (h @ ext) f
           \<and> those (map (read_entry (h @ ext)) (Object_entries own')) = Some vs
           \<and> list_all (\<lambda>r. length h \<le> r) (refs_of own')"
proof -
  obtain es' ext where c: "copy_entries (Object_entries own) h = Some (es', h @ ext)"
    and m: "map fst es' = map fst (Object_entries own)"
    and w: "those (map (read_entry (h @ ext)) es') = Some vs"
    and n: "list_all (\<lambda>r. length h \<le> r) (refs_of es')"
    using copy_entries_spec [OF v] by blast
  have de: "distinct (map fst es')"
    using m d by (simp add: distinct_Object_entries)
  have fe: "Object_fromEntries es' = es'"
    using de by (rule Object_fromEntries_distinct)
  have oe: "Object_entries es' = es'"
    using m d by (rule Object_entries_fixed)
  let ?f = "length (h @ ext)"
  let ?e = "ext @ [Object es' None]"
  have 1: "copy_filter r h = Some (?f, h @ ?e)"
    using o c by (simp add: copy_filter_def alloc_def fe)
  have 2: "object_at (h @ ?e) ?f = Some (es', None)"
    using cell_at_new [of "h @ ext" "Object es' None" "[]"] by (simp add: object_at_cell)
  have 3: "those (map (read_entry (h @ ?e)) (Object_entries es')) = Some vs"
    using those_entries_append [OF w, of "[Object es' None]"] by (simp add: oe)
  then have "list_all (\<lambda>e. read_entry (h @ ?e) e \<noteq> None) es'"
    using those_all oe by fastforce
  then have "list_all (valid_entry (h @ ?e)) es'"
    using read_entry_valid unfolding list_all_iff by blast
  then have 4: "wf_filter (h @ ?e) ?f"
    using 2 de by (simp add: wf_filter_def)
  have 5: "length h \<le> ?f"
    by simp
  show ?thesis
    using 1 2 3 4 5 n by blast
qed

subsection \<open>\<open>clone\<close>\<close>

lemma entries_defined:
  assumes "wf_filter h f" and "object_at h f = Some (own, proto)"
  shows "\<exists>vs. those (map (read_entry h) (Object_entries own)) = Some vs"
proof -
  have l: "list_all (valid_entry h) own"
    using assms by (simp add: wf_filter_def)
  have "read_entry h e \<noteq> None" if "e \<in> set own" for e
  proof (cases e)
    case (Pair k fv)
    have "valid_entry h e"
      using l that by (simp add: list_all_iff)
    then show ?thesis
      using Pair by (cases fv) auto
  qed
  then have "list_all (\<lambda>e. read_entry h e \<noteq> None) (Object_entries own)"
    by (simp add: list_all_iff set_Object_entries)
  then show ?thesis
    by (rule those_defined)
qed

lemma new_builder_spec:
  "\<exists>copy ext. new_builder h = (copy, h @ ext) \<and> length h \<le> copy
     \<and> builder_at (h @ ext) copy \<noteq> None"
  by (simp add: new_builder_def alloc_def builder_at_def cell_at_def nth_append)

lemma builder_at_append: "builder_at h a = Some b \<Longrightarrow> builder_at (h @ ext) a = Some b"
  by (simp add: builder_at_cell cell_at_append_Some)

lemma carried:
  assumes "builder_at hi copy \<noteq> None"
  shows "unchanged_outside {copy} hi ((hi @ ext)[copy := c]) \<and> (\<forall>x\<in>{copy}. container hi x)"
proof -
  have "unchanged_outside {copy} (hi @ ext) ((hi @ ext)[copy := c])"
    by (rule unchanged_update) simp
  then have "unchanged_outside {copy} hi ((hi @ ext)[copy := c])"
    using unchanged_append by (rule unchanged_trans [rotated])
  then show ?thesis
    using assms by (simp add: container_def)
qed

lemma clone_spec:
  assumes wfb: "wf_builder h a"
  shows "\<exists>copy hF. clone a h = Some (copy, hF) \<and> unchanged_outside {} h hF
           \<and> wf_builder hF copy \<and> toParams_h hF copy = toParams_h h a
           \<and> (\<forall>x\<in>written hF copy. length h \<le> x)
           \<and> list_all (\<lambda>x. length h \<le> x) (cells_of hF copy)"
proof -
  obtain b where b: "builder_at h a = Some b" and wf: "wf_fields h b"
    using wfb by (auto simp: wf_builder_def split: option.splits)
  obtain rules where r: "sort_at h (o_sortBy b) = Some rules"
    and t: "list_all (\<lambda>t. tuple_at h t \<noteq> None) rules"
    using wf_fields_sort [OF wf] by blast
  obtain vs where vs: "those (map (tuple_at h) rules) = Some vs"
    using those_defined [OF t] by blast
  obtain sbs sls where sbs: "strings_at h (o_searchBy b) = Some sbs"
    and sls: "strings_at h (o_select b) = Some sls"
    using wf_fields_rest(1,2) [OF wf] by auto
  obtain sbe sle where sbe: "array_at h (o_searchBy b) = Some sbe"
    and sle: "array_at h (o_select b) = Some sle"
    using sbs sls strings_at_array by blast
  have wff: "wf_filter h (o_filter b)"
    using wf_fields_rest(3) [OF wf] .
  obtain own proto where o: "object_at h (o_filter b) = Some (own, proto)"
    using wff wf_filter_object by blast
  have d: "distinct (map fst own)"
    using wff o by (simp add: wf_filter_def)
  obtain fvs where fvs: "those (map (read_entry h) (Object_entries own)) = Some fvs"
    using entries_defined [OF wff o] by blast

  obtain copy ext0 where nb: "new_builder h = (copy, h @ ext0)" and fresh: "length h \<le> copy"
    and cb: "builder_at (h @ ext0) copy \<noteq> None"
    using new_builder_spec by blast
  define h0 where "h0 = h @ ext0"
  have r0: "sort_at h0 (o_sortBy b) = Some rules"
    and vs0: "those (map (tuple_at h0) rules) = Some vs"
    unfolding h0_def using r vs by (simp_all add: sort_at_append those_tuples_append)
  obtain s ext1 rules' where cs: "copy_sort (o_sortBy b) h0 = Some (s, h0 @ ext1)"
    and s0: "length h0 \<le> s"
    and s: "sort_at (h0 @ ext1) s = Some rules'"
    and vs1: "those (map (tuple_at (h0 @ ext1)) rules') = Some vs"
    and n1: "list_all (\<lambda>t. length h0 \<le> t) rules'"
    using copy_sort_spec [OF r0 vs0] by blast
  define h1 where "h1 = h0 @ ext1"
  have sbe1: "array_at h1 (o_searchBy b) = Some sbe"
    unfolding h1_def h0_def using sbe by (simp add: array_at_append)
  define h2 where "h2 = h1 @ [Array sbe]"
  have ca1: "copy_array (o_searchBy b) h1 = Some (length h1, h2)"
    unfolding h2_def using sbe1 by (rule copy_array_spec)
  have sle2: "array_at h2 (o_select b) = Some sle"
    unfolding h2_def h1_def h0_def using sle by (simp add: array_at_append)
  define h3 where "h3 = h2 @ [Array sle]"
  have ca2: "copy_array (o_select b) h2 = Some (length h2, h3)"
    unfolding h3_def using sle2 by (rule copy_array_spec)
  have o3: "object_at h3 (o_filter b) = Some (own, proto)"
    unfolding h3_def h2_def h1_def h0_def using o by (simp add: object_at_append)
  have fvs3: "those (map (read_entry h3) (Object_entries own)) = Some fvs"
    unfolding h3_def h2_def h1_def h0_def using fvs by (simp add: those_entries_append)
  obtain f ext4 own' where cf: "copy_filter (o_filter b) h3 = Some (f, h3 @ ext4)"
    and f: "length h3 \<le> f"
    and o4: "object_at (h3 @ ext4) f = Some (own', None)"
    and wf4: "wf_filter (h3 @ ext4) f"
    and fvs4: "those (map (read_entry (h3 @ ext4)) (Object_entries own')) = Some fvs"
    and n4: "list_all (\<lambda>r. length h3 \<le> r) (refs_of own')"
    using copy_filter_spec [OF o3 d fvs3] by blast
  define h4 where "h4 = h3 @ ext4"
  define c' where "c' = \<lparr>o_page = o_page b, o_limit = o_limit b, o_sortBy = s,
     o_search = o_search b, o_searchBy = length h1, o_select = length h2, o_filter = f,
     o_cursor = o_cursor b, o_withDeleted = o_withDeleted b\<rparr>"
  define hF where "hF = h4[copy := Builder c']"

  have cl: "clone a h = Some (copy, hF)"
    by (simp add: clone_def b nb [folded h0_def] cs [folded h1_def] ca1 ca2 cf [folded h4_def]
          hF_def c'_def)

  have b1: "builder_at h1 copy \<noteq> None" and b2: "builder_at h2 copy \<noteq> None"
    and b3: "builder_at h3 copy \<noteq> None" and b4: "builder_at h4 copy \<noteq> None"
    unfolding h4_def h3_def h2_def h1_def h0_def using cb builder_at_append by fastforce+
  have e1: "hF = (h1 @ ([Array sbe] @ [Array sle] @ ext4))[copy := Builder c']"
    and e2: "hF = (h2 @ ([Array sle] @ ext4))[copy := Builder c']"
    and e4: "hF = (h4 @ [])[copy := Builder c']"
    and e: "hF = (h @ (ext0 @ ext1 @ [Array sbe] @ [Array sle] @ ext4))[copy := Builder c']"
    unfolding hF_def h4_def h3_def h2_def h1_def h0_def by simp_all
  have e3: "hF = (h3 @ ext4)[copy := Builder c']"
    unfolding hF_def h4_def by simp
  note k1 = carried [OF b1, of "[Array sbe] @ [Array sle] @ ext4" "Builder c'", folded e1]
  note k2 = carried [OF b2, of "[Array sle] @ ext4" "Builder c'", folded e2]
  note k3 = carried [OF b3, of ext4 "Builder c'", folded e3]
  note k4 = carried [OF b4, of "[]" "Builder c'", folded e4]

  have u: "unchanged_outside {} h hF"
    unfolding e using fresh by (rule unchanged_update_new)

  have cF: "builder_at hF copy = Some c'"
  proof -
    have "copy < length h4"
      using b4 by (auto simp: builder_at_cell dest: cell_at_less)
    then show ?thesis
      by (simp add: hF_def builder_at_cell cell_at_update)
  qed
  have s1: "sort_at h1 s = Some rules'"
    using s by (simp add: h1_def)
  have "s \<noteq> copy"
    using s1 b1 builder_not_sort [of h1 copy] by auto
  then have sF: "sort_at hF s = Some rules'"
    using sort_unchanged [OF conjunct1 [OF k1] s1] by simp
  have tF: "those (map (tuple_at hF) rules') = Some vs"
    using vs1 [folded h1_def] tuple_unchanged [OF conjunct1 [OF k1] conjunct2 [OF k1]]
    by (rule those_cong)
  have "strings_at h2 (length h1) = Some sbs"
  proof -
    have "array_at h2 (length h1) = Some sbe"
      by (simp add: h2_def array_at_new)
    moreover have "those (map string_of sbe) = Some sbs"
      using sbs sbe by (simp add: strings_at_elems)
    ultimately show ?thesis
      by (simp add: strings_at_elems)
  qed
  then have sbF: "strings_at hF (length h1) = Some sbs"
    using strings_unchanged [OF conjunct1 [OF k2] conjunct2 [OF k2]] by simp
  have "strings_at h3 (length h2) = Some sls"
  proof -
    have "array_at h3 (length h2) = Some sle"
      by (simp add: h3_def array_at_new)
    moreover have "those (map string_of sle) = Some sls"
      using sls sle by (simp add: strings_at_elems)
    ultimately show ?thesis
      by (simp add: strings_at_elems)
  qed
  then have slF: "strings_at hF (length h2) = Some sls"
    using strings_unchanged [OF conjunct1 [OF k3] conjunct2 [OF k3]] by simp
  have o4': "object_at h4 f = Some (own', None)"
    using o4 by (simp add: h4_def)
  have "f \<noteq> copy"
    using o4' b4 builder_not_object [of h4 copy] by auto
  then have fc: "f \<notin> {copy}"
    by simp
  have oF: "object_at hF f = Some (own', None)"
    using object_unchanged [OF conjunct1 [OF k4] o4' fc] .
  have wfF: "wf_filter hF f"
    using wf_filter_unchanged [OF conjunct1 [OF k4] conjunct2 [OF k4] wf4 [folded h4_def] fc] .
  have eF: "those (map (read_entry hF) (Object_entries own')) = Some fvs"
    using fvs4 [folded h4_def] read_entry_unchanged [OF conjunct1 [OF k4] conjunct2 [OF k4]]
    by (rule those_cong)

  have "wf_fields hF c'"
  proof (rule wf_fields_intro)
    show "sort_at hF (o_sortBy c') = Some rules'"
      using sF by (simp add: c'_def)
    show "list_all (\<lambda>t. tuple_at hF t \<noteq> None) rules'"
      using tF by (rule those_all)
    show "strings_at hF (o_searchBy c') \<noteq> None"
      using sbF by (simp add: c'_def)
    show "strings_at hF (o_select c') \<noteq> None"
      using slF by (simp add: c'_def)
    show "wf_filter hF (o_filter c')"
      using wfF by (simp add: c'_def)
  qed
  then have 1: "wf_builder hF copy"
    using cF by (simp add: wf_builder_def)

  have rf: "read_fields hF copy = read_fields h a"
    using cF sF tF sbF slF b r vs sbs sls by (simp add: read_fields_def c'_def)
  have rl: "read_filter hF copy = read_filter h a"
    using cF oF eF b o fvs by (simp add: read_filter_def c'_def)
  have 2: "toParams_h hF copy = toParams_h h a"
    unfolding toParams_h_def rf rl by (rule refl)

  have "written hF copy = {copy, s, f}"
    using cF by (simp add: written_def c'_def)
  moreover have "length h \<le> s" "length h \<le> f"
    using s0 f by (simp_all add: h3_def h2_def h1_def h0_def)
  ultimately have 3: "\<forall>x\<in>written hF copy. length h \<le> x"
    using fresh by simp
  have "cells_of hF copy = [copy, s, length h1, length h2, f] @ rules' @ refs_of own'"
    using cF sF oF by (simp add: cells_of_def c'_def)
  moreover have "list_all (\<lambda>x. length h \<le> x) rules'"
    using all_new_mono [OF n1, of "length h"] by (simp add: h0_def)
  moreover have "list_all (\<lambda>x. length h \<le> x) (refs_of own')"
    using all_new_mono [OF n4, of "length h"] by (simp add: h3_def h2_def h1_def h0_def)
  moreover have "length h \<le> length h1" "length h \<le> length h2"
    by (simp_all add: h2_def h1_def h0_def)
  ultimately have 4: "list_all (\<lambda>x. length h \<le> x) (cells_of hF copy)"
    using fresh \<open>length h \<le> s\<close> \<open>length h \<le> f\<close> by simp
  show ?thesis
    using cl u 1 2 3 4 by blast
qed

subsection \<open>Two builders that share no written cell\<close>

lemma written_allocated:
  assumes "wf_builder h a"
  shows "\<forall>x\<in>written h a. x < length h"
proof -
  obtain b where b: "builder_at h a = Some b" and wf: "wf_fields h b"
    using assms by (auto simp: wf_builder_def split: option.splits)
  obtain rules where r: "sort_at h (o_sortBy b) = Some rules"
    using wf_fields_sort [OF wf] by blast
  obtain own proto where o: "object_at h (o_filter b) = Some (own, proto)"
    using wf_fields_rest(3) [OF wf] wf_filter_object by blast
  have "a < length h" "o_sortBy b < length h" "o_filter b < length h"
    using b r o by (simp_all add: builder_at_cell sort_at_cell object_at_cell cell_at_less)
  then show ?thesis
    using b by (simp add: written_def)
qed

lemma separate_sym: "separate h a c \<Longrightarrow> separate h c a"
  by (auto simp: separate_def)

lemma separate_after_clone:
  assumes wfb: "wf_builder h a"
  shows "\<exists>copy h1. clone a h = Some (copy, h1) \<and> separate h1 a copy
           \<and> toParams_h h1 copy = toParams_h h a \<and> toParams_h h1 a = toParams_h h a
           \<and> list_all (\<lambda>x. length h \<le> x) (cells_of h1 copy)"
proof -
  obtain copy h1 where cl: "clone a h = Some (copy, h1)" and u: "unchanged_outside {} h h1"
    and wfc: "wf_builder h1 copy" and p: "toParams_h h1 copy = toParams_h h a"
    and fresh: "\<forall>x\<in>written h1 copy. length h \<le> x"
    and new: "list_all (\<lambda>x. length h \<le> x) (cells_of h1 copy)"
    using clone_spec [OF wfb] by blast
  have a: "wf_builder h1 a \<and> written h1 a = written h a \<and> toParams_h h1 a = toParams_h h a"
    using builder_untouched [OF u _ wfb] by simp
  have "written h1 a \<inter> written h1 copy = {}"
    using a fresh written_allocated [OF wfb] by fastforce
  then have "separate h1 a copy"
    using a wfc by (simp add: separate_def)
  then show ?thesis
    using cl p a new by blast
qed

lemma step_separate:
  assumes sep: "separate h a c" and ty: "typed h m"
  shows "\<exists>h'. apply_h ap m a h = Some h' \<and> separate h' a c \<and> toParams_h h' c = toParams_h h c"
proof -
  have wfa: "wf_builder h a" and wfc: "wf_builder h c" and d: "written h c \<inter> written h a = {}"
    using sep by (auto simp: separate_def)
  obtain h' where ap: "apply_h ap m a h = Some h'"
    and u: "unchanged_outside (written h a) h h'"
    and wfa': "wf_builder h' a" and wa: "written h' a = written h a"
    using apply_h_frame [OF wfa ty] by blast
  have c: "wf_builder h' c \<and> written h' c = written h c \<and> toParams_h h' c = toParams_h h c"
    using u container_written [OF wfa] wfc d by (rule builder_untouched)
  have "separate h' a c"
    using wfa' wa c d by (auto simp: separate_def)
  then show ?thesis
    using ap c by blast
qed

lemma allocation_separate:
  assumes "separate h a c"
  shows "separate (h @ ext) a c"
  using assms only_allocated [of h a ext] only_allocated [of h c ext]
  by (simp add: separate_def)

lemma searchBy_h_typed: "searchBy_h r a h = Some h' \<Longrightarrow> strings_at h r \<noteq> None"
  by (auto simp: searchBy_h_def split: option.splits)

lemma select_h_typed: "select_h r a h = Some h' \<Longrightarrow> strings_at h r \<noteq> None"
  by (auto simp: select_h_def split: option.splits)

lemma filter_h_typed: "filter_h ap column (TArray r) a h = Some h' \<Longrightarrow> strings_at h r \<noteq> None"
  by (auto simp: filter_h_def token_array_def split: option.splits)

lemma apply_h_typed:
  assumes "apply_h ap m a h = Some h'"
  shows "typed h m"
proof (cases m)
  case (HSearchBy r)
  then show ?thesis
    using assms searchBy_h_typed by simp
next
  case (HSelect r)
  then show ?thesis
    using assms select_h_typed by simp
next
  case (HFilter column token)
  then show ?thesis
    using assms filter_h_typed by (cases token) auto
qed simp_all

lemma exec_separate:
  assumes "separate h a c" and "exec ap steps a c h = Some h'"
  shows "separate h' a c"
  using assms
proof (induction steps arbitrary: h)
  case Nil
  then show ?case by simp
next
  case (Cons st steps)
  show ?case
  proof (cases st)
    case (OnOriginal m)
    then obtain h1 where 1: "apply_h ap m a h = Some h1" and 2: "exec ap steps a c h1 = Some h'"
      using Cons.prems(2) by (auto split: option.splits)
    have "separate h1 a c"
      using step_separate [OF Cons.prems(1) apply_h_typed [OF 1], of ap] 1 by auto
    then show ?thesis
      using Cons.IH 2 by blast
  next
    case (OnCopy m)
    then obtain h1 where 1: "apply_h ap m c h = Some h1" and 2: "exec ap steps a c h1 = Some h'"
      using Cons.prems(2) by (auto split: option.splits)
    have "separate h1 c a"
      using step_separate [OF separate_sym [OF Cons.prems(1)] apply_h_typed [OF 1], of ap] 1
      by auto
    then have "separate h1 a c"
      by (rule separate_sym)
    then show ?thesis
      using Cons.IH 2 by blast
  next
    case (NewArray xs)
    then have 2: "exec ap steps a c (h @ [Array (map EStr xs)]) = Some h'"
      using Cons.prems(2) by (simp add: alloc_def)
    have "separate (h @ [Array (map EStr xs)]) a c"
      using Cons.prems(1) by (rule allocation_separate)
    then show ?thesis
      using Cons.IH 2 by blast
  qed
qed

text \<open>
  The hypothesis of the theorem holds of every builder the program makes: a new builder
  is well formed, and every call that returns keeps it so.
\<close>

lemma apply_h_wf:
  assumes "wf_builder h a" and "apply_h ap m a h = Some h'"
  shows "wf_builder h' a"
  using apply_h_frame [OF assms(1) apply_h_typed [OF assms(2)], of ap] assms(2) by auto

lemma new_builder_wf: "wf_builder (snd (new_builder h)) (fst (new_builder h))"
  by (simp add: new_builder_def alloc_def wf_builder_def wf_fields_def wf_filter_def
        builder_at_def sort_at_def strings_at_def array_at_def object_at_def cell_at_def
        nth_append)

text \<open>
  C5. For every well-formed builder in any store, \<open>clone\<close> returns a builder whose
  \<open>toParams\<close> equals that of the original, which is itself unchanged by the call, and
  every cell the copy refers to (the builder, its containers, the tuples of its sort
  array, the arrays among its filter entries) is a new one, none of the store before. After
  any sequence of calls of the public mutators on the original and on the copy (with
  the caller creating arrays to pass in between), each builder still has a param map,
  and any further well-typed call returns and leaves the \<open>toParams\<close> of the other
  builder as it was: a call on the original does not change the \<open>toParams\<close> of the copy,
  and a call on the copy does not change the \<open>toParams\<close> of the original. The columns
  are arbitrary, those named like members of \<open>Object.prototype\<close> or \<open>Array.prototype\<close>
  included.
\<close>

theorem clone_independent:
  assumes "wf_builder h this"
  shows "case clone this h of
           None \<Rightarrow> False
         | Some (copy, h1) \<Rightarrow>
             toParams_h h this \<noteq> None
             \<and> toParams_h h1 copy = toParams_h h this
             \<and> toParams_h h1 this = toParams_h h this
             \<and> list_all (\<lambda>x. length h \<le> x) (cells_of h1 copy)
             \<and> (case exec ap steps this copy h1 of
                  None \<Rightarrow> True
                | Some h2 \<Rightarrow>
                    toParams_h h2 this \<noteq> None \<and> toParams_h h2 copy \<noteq> None
                    \<and> (typed h2 m \<longrightarrow>
                         (case apply_h ap m this h2 of
                            None \<Rightarrow> False
                          | Some h3 \<Rightarrow> toParams_h h3 copy = toParams_h h2 copy)
                         \<and> (case apply_h ap m copy h2 of
                              None \<Rightarrow> False
                            | Some h3 \<Rightarrow> toParams_h h3 this = toParams_h h2 this)))"
proof -
  obtain copy h1 where cl: "clone this h = Some (copy, h1)" and sep: "separate h1 this copy"
    and p: "toParams_h h1 copy = toParams_h h this" "toParams_h h1 this = toParams_h h this"
      "list_all (\<lambda>x. length h \<le> x) (cells_of h1 copy)"
    using separate_after_clone [OF assms] by blast
  have d: "toParams_h h this \<noteq> None"
    using toParams_h_defined [OF assms] by auto
  have later: "toParams_h h2 this \<noteq> None \<and> toParams_h h2 copy \<noteq> None
         \<and> (typed h2 m \<longrightarrow>
              (case apply_h ap m this h2 of
                 None \<Rightarrow> False
               | Some h3 \<Rightarrow> toParams_h h3 copy = toParams_h h2 copy)
              \<and> (case apply_h ap m copy h2 of
                   None \<Rightarrow> False
                 | Some h3 \<Rightarrow> toParams_h h3 this = toParams_h h2 this))"
    if e: "exec ap steps this copy h1 = Some h2" for h2
  proof -
    have s2: "separate h2 this copy"
      using sep e by (rule exec_separate)
    then have wf: "wf_builder h2 this" "wf_builder h2 copy"
      by (simp_all add: separate_def)
    have 1: "toParams_h h2 this \<noteq> None" "toParams_h h2 copy \<noteq> None"
      using toParams_h_defined [OF wf(1)] toParams_h_defined [OF wf(2)] by auto
    have 2: "case apply_h ap m this h2 of
               None \<Rightarrow> False
             | Some h3 \<Rightarrow> toParams_h h3 copy = toParams_h h2 copy" if "typed h2 m"
      using step_separate [OF s2 that, of ap] by auto
    have 3: "case apply_h ap m copy h2 of
               None \<Rightarrow> False
             | Some h3 \<Rightarrow> toParams_h h3 this = toParams_h h2 this" if "typed h2 m"
      using step_separate [OF separate_sym [OF s2] that, of ap] by auto
    show ?thesis
      using 1 2 3 by blast
  qed
  show ?thesis
  proof (cases "exec ap steps this copy h1")
    case None
    then show ?thesis
      using cl d p by simp
  next
    case (Some h2)
    then show ?thesis
      using cl d p later [OF Some] by simp
  qed
qed

theorem clone_independent_witness:
  "wf_builder
     [SortArray [5], Array [EStr (js ''name'')], Array [], Object [(js ''name'', FRef 6)] None,
      Builder \<lparr>o_page = Some 2, o_limit = None, o_sortBy = 0, o_search = None, o_searchBy = Suc 0,
        o_select = 2, o_filter = 3, o_cursor = None, o_withDeleted = None\<rparr>,
      Tuple (js ''name'') (js ''ASC''), Array [EStr (js ''$eq:A''), EStr (js ''$eq:B'')]] 4
   \<and> (case clone 4
          [SortArray [5], Array [EStr (js ''name'')], Array [], Object [(js ''name'', FRef 6)] None,
           Builder \<lparr>o_page = Some 2, o_limit = None, o_sortBy = 0, o_search = None,
             o_searchBy = Suc 0, o_select = 2, o_filter = 3, o_cursor = None, o_withDeleted = None\<rparr>,
           Tuple (js ''name'') (js ''ASC''), Array [EStr (js ''$eq:A''), EStr (js ''$eq:B'')]] of
         None \<Rightarrow> False
       | Some (copy, h1) \<Rightarrow>
           (case exec [js ''push'']
                  [OnCopy (HSortBy (js ''id'') DESC), NewArray [js ''id'', js ''name''],
                   OnOriginal (HFilter (js ''__proto__'') (TString (js ''$eq:C''))),
                   OnOriginal (HFilter (js ''length'') (TString (js ''$eq:C'')))] 4 copy h1 of
              None \<Rightarrow> False
            | Some h2 \<Rightarrow>
                (case apply_h [js ''push''] (HFilter (js ''name'') (TString (js ''$eq:D''))) 4 h2 of
                   None \<Rightarrow> False
                 | Some h3 \<Rightarrow> toParams_h h3 copy = toParams_h h2 copy)
                \<and> (case apply_h [js ''push''] (HFilter (js ''name'') (TString (js ''$eq:D'')))
                            copy h2 of
                     None \<Rightarrow> False
                   | Some h3 \<Rightarrow> toParams_h h3 4 = toParams_h h2 4)))"
proof -
  let ?h = "[SortArray [5], Array [EStr (js ''name'')], Array [], Object [(js ''name'', FRef 6)] None,
      Builder \<lparr>o_page = Some 2, o_limit = None, o_sortBy = 0, o_search = None, o_searchBy = Suc 0,
        o_select = 2, o_filter = 3, o_cursor = None, o_withDeleted = None\<rparr>,
      Tuple (js ''name'') (js ''ASC''), Array [EStr (js ''$eq:A''), EStr (js ''$eq:B'')]]"
  let ?steps = "[OnCopy (HSortBy (js ''id'') DESC), NewArray [js ''id'', js ''name''],
                   OnOriginal (HFilter (js ''__proto__'') (TString (js ''$eq:C''))),
                   OnOriginal (HFilter (js ''length'') (TString (js ''$eq:C'')))]"
  have wf: "wf_builder ?h 4"
    by (simp add: wf_builder_def wf_fields_def wf_filter_def builder_at_def sort_at_def
          tuple_at_def strings_at_def array_at_def object_at_def cell_at_def)
  have ex: "case clone 4 ?h of
              None \<Rightarrow> False
            | Some (copy, h1) \<Rightarrow>
                (case exec [js ''push''] ?steps 4 copy h1 of None \<Rightarrow> False | Some h2 \<Rightarrow> True)"
    by code_simp
  obtain copy h1 where cl: "clone 4 ?h = Some (copy, h1)"
    using ex by (cases "clone 4 ?h") (auto simp del: exec.simps)
  obtain h2 where e: "exec [js ''push''] ?steps 4 copy h1 = Some h2"
    using ex unfolding cl by (cases "exec [js ''push''] ?steps 4 copy h1") (simp_all del: exec.simps)
  have ty: "typed h2 (HFilter (js ''name'') (TString (js ''$eq:D'')))"
    by simp
  have "(case apply_h [js ''push''] (HFilter (js ''name'') (TString (js ''$eq:D''))) 4 h2 of
           None \<Rightarrow> False
         | Some h3 \<Rightarrow> toParams_h h3 copy = toParams_h h2 copy)
        \<and> (case apply_h [js ''push''] (HFilter (js ''name'') (TString (js ''$eq:D''))) copy h2 of
             None \<Rightarrow> False
           | Some h3 \<Rightarrow> toParams_h h3 4 = toParams_h h2 4)"
    using ty clone_independent [OF wf, where ap = "[js ''push'']" and steps = ?steps
        and m = "HFilter (js ''name'') (TString (js ''$eq:D''))"]
    by (simp add: cl e del: exec.simps apply_h.simps typed.simps)
  then show ?thesis
    using wf by (simp add: cl e del: exec.simps apply_h.simps typed.simps)
qed


end
